theory Spec2Isabelle
  imports Complex_Main "HOL-Library.AList" "HOL-Library.Multiset"
begin

section \<open>Calendar dates\<close>

text \<open>
  The scheduler only ever handles JavaScript \<^verbatim>\<open>Date\<close> objects that stand for a
  local midnight (\<^verbatim>\<open>new Date(year, month, day)\<close> and whole days added to it) or
  are the Invalid Date. A valid date is modelled by its day number, the count of days
  since 1 January 1970 (type \<open>Date\<close>); a \<^verbatim>\<open>Date\<close> object that may be invalid is a
  \<open>Date option\<close>, \<open>None\<close> being the Invalid Date. Local time is taken to be UTC, so
  that a day number \<open>n\<close> is the time value \<open>n * 86400000\<close>, and \<^verbatim>\<open>TimeClip\<close> makes
  a date invalid when its time value is more than \<open>8640000000000000\<close> milliseconds
  away from 0.
  The calendar fields are computed from the day number as ECMAScript does it
  (\<^verbatim>\<open>DayFromYear\<close>, \<^verbatim>\<open>YearFromTime\<close>, \<^verbatim>\<open>MonthFromTime\<close>, \<^verbatim>\<open>DateFromTime\<close>,
  \<^verbatim>\<open>MakeDay\<close>) in the proleptic Gregorian calendar.
\<close>

type_synonym Date = int

definition validTime :: "int \<Rightarrow> bool" where
  "validTime ms = (\<bar>ms\<bar> \<le> 8640000000000000)"

definition TimeClip :: "int \<Rightarrow> Date option" where
  "TimeClip n = (if validTime (n * 86400000) then Some n else None)"

text \<open>The comparison \<^verbatim>\<open>a <= b\<close> of two \<^verbatim>\<open>Date\<close> objects: false when one is invalid.\<close>

definition dateLe :: "Date option \<Rightarrow> Date option \<Rightarrow> bool" where
  "dateLe a b = (case a of None \<Rightarrow> False
                 | Some x \<Rightarrow> (case b of None \<Rightarrow> False | Some y \<Rightarrow> x \<le> y))"

definition InLeapYear :: "int \<Rightarrow> bool" where
  "InLeapYear y = (y mod 4 = 0 \<and> (y mod 100 \<noteq> 0 \<or> y mod 400 = 0))"

definition DayFromYear :: "int \<Rightarrow> int" where
  "DayFromYear y =
     365 * (y - 1970) + (y - 1969) div 4 - (y - 1901) div 100 + (y - 1601) div 400"

text \<open>Day within the year on which month \<open>m\<close> (0 = January) begins; 12 is the year's end.\<close>

definition monthStart :: "bool \<Rightarrow> int \<Rightarrow> int" where
  "monthStart leap m =
     (let l = (if leap then 1 else 0) in
      if m = 0 then 0 else if m = 1 then 31 else if m = 2 then 59 + l
      else if m = 3 then 90 + l else if m = 4 then 120 + l else if m = 5 then 151 + l
      else if m = 6 then 181 + l else if m = 7 then 212 + l else if m = 8 then 243 + l
      else if m = 9 then 273 + l else if m = 10 then 304 + l else if m = 11 then 334 + l
      else 365 + l)"

definition MakeDay :: "int \<Rightarrow> int \<Rightarrow> int \<Rightarrow> Date" where
  "MakeDay y m d =
     (let ym = y + m div 12; mn = m mod 12
      in DayFromYear ym + monthStart (InLeapYear ym) mn + d - 1)"

text \<open>
  \<^verbatim>\<open>new Date(year, monthIndex, day)\<close>: a year from 0 to 99 stands for 1900 plus that
  year, and the result is the Invalid Date when it is out of range.
\<close>

definition remapYear :: "int \<Rightarrow> int" where
  "remapYear y = (if 0 \<le> y \<and> y \<le> 99 then 1900 + y else y)"

definition Date_new :: "int \<Rightarrow> int \<Rightarrow> int \<Rightarrow> Date option" where
  "Date_new y m d = TimeClip (MakeDay (remapYear y) m d)"

text \<open>
  \<^verbatim>\<open>YearFromTime\<close>: the year \<open>y\<close> with \<open>DayFromYear y \<le> n < DayFromYear (y + 1)\<close>,
  computed from an estimate that is off by at most one (lemma \<open>getFullYear_unique\<close>).
\<close>

definition getFullYear :: "Date \<Rightarrow> int" where
  "getFullYear n =
     (let y0 = 1970 + (400 * n) div 146097
      in if n < DayFromYear y0 then y0 - 1
         else if DayFromYear (y0 + 1) \<le> n then y0 + 1 else y0)"

text \<open>\<^verbatim>\<open>MonthFromTime\<close>, from the day within the year.\<close>

definition monthFromDay :: "bool \<Rightarrow> int \<Rightarrow> int" where
  "monthFromDay leap dwy =
     (if dwy < monthStart leap 1 then 0 else if dwy < monthStart leap 2 then 1
      else if dwy < monthStart leap 3 then 2 else if dwy < monthStart leap 4 then 3
      else if dwy < monthStart leap 5 then 4 else if dwy < monthStart leap 6 then 5
      else if dwy < monthStart leap 7 then 6 else if dwy < monthStart leap 8 then 7
      else if dwy < monthStart leap 9 then 8 else if dwy < monthStart leap 10 then 9
      else if dwy < monthStart leap 11 then 10 else 11)"

definition getMonth :: "Date \<Rightarrow> int" where
  "getMonth n =
     (let y = getFullYear n in monthFromDay (InLeapYear y) (n - DayFromYear y))"

definition getDate :: "Date \<Rightarrow> int" where
  "getDate n =
     (let y = getFullYear n; leap = InLeapYear y; dwy = n - DayFromYear y
      in dwy - monthStart leap (monthFromDay leap dwy) + 1)"

text \<open>\<^verbatim>\<open>getDay\<close>: 0 = Sunday, ..., 6 = Saturday; day 0 (1 January 1970) was a Thursday.\<close>

definition getDay :: "Date \<Rightarrow> nat" where
  "getDay n = nat ((n + 4) mod 7)"

text \<open>
  \<^verbatim>\<open>format(date, 'yyyy-MM-dd')\<close> of a valid date (date-fns throws a \<^verbatim>\<open>RangeError\<close>
  for the Invalid Date, which is written out where it can happen). The strings are
  only compared with each other, and those compared come from dates of one calendar
  year or from years of which one was remapped by the constructor: for them the
  strings are equal exactly when year, month number and day of the month are, and
  these three numbers stand for the string.
\<close>

type_synonym dateKey = "int \<times> int \<times> int"

definition format :: "Date \<Rightarrow> dateKey" where
  "format n =
     (let y = getFullYear n; leap = InLeapYear y; dwy = n - DayFromYear y;
          m = monthFromDay leap dwy
      in (y, m + 1, dwy - monthStart leap m + 1))"

text \<open>\<^verbatim>\<open>format(a, 'yyyy-MM-dd') === format(b, 'yyyy-MM-dd')\<close>\<close>

definition sameDay :: "Date \<Rightarrow> Date \<Rightarrow> bool" where
  "sameDay a b = (format a = format b)"

text \<open>
  \<^verbatim>\<open>setDate(getDate() + n)\<close>, date-fns \<^verbatim>\<open>addDays\<close> and \<^verbatim>\<open>addWeeks\<close> on a valid
  date; the result can be the Invalid Date.
\<close>

definition addDays :: "Date \<Rightarrow> int \<Rightarrow> Date option" where
  "addDays d n = TimeClip (d + n)"

definition addWeeks :: "Date \<Rightarrow> int \<Rightarrow> Date option" where
  "addWeeks d n = addDays d (n * 7)"

text \<open>
  date-fns \<^verbatim>\<open>startOfMonth\<close> and \<^verbatim>\<open>endOfMonth\<close>; both give the Invalid Date for the
  Invalid Date. \<^verbatim>\<open>endOfMonth\<close> sets day 0 of the next month and then the time
  23:59:59.999; its result is modelled by the day number of that day, which is how it
  compares with a local midnight.
\<close>

definition startOfMonth :: "Date option \<Rightarrow> Date option" where
  "startOfMonth date =
     (case date of None \<Rightarrow> None
      | Some d \<Rightarrow> TimeClip (MakeDay (getFullYear d) (getMonth d) 1))"

definition endOfMonth :: "Date option \<Rightarrow> Date option" where
  "endOfMonth date =
     (case date of None \<Rightarrow> None
      | Some d \<Rightarrow>
          (case TimeClip (MakeDay (getFullYear d) (getMonth d + 1) 0) of None \<Rightarrow> None
           | Some n \<Rightarrow> if validTime (n * 86400000 + 86399999) then Some n else None))"

section \<open>Strings\<close>

text \<open>
  \<^verbatim>\<open>toLowerCase\<close> and \<^verbatim>\<open>includes\<close>. Only the letters A to Z are mapped: no other
  character becomes one of the characters of the text searched for.
\<close>

definition toLowerCase :: "string \<Rightarrow> string" where
  "toLowerCase s =
     map (\<lambda>c. if 65 \<le> (of_char c :: nat) \<and> (of_char c :: nat) \<le> 90
               then char_of ((of_char c :: nat) + 32) else c) s"

fun startsWith :: "string \<Rightarrow> string \<Rightarrow> bool" where
  "startsWith s [] = True"
| "startsWith [] (y # ys) = False"
| "startsWith (x # xs) (y # ys) = (x = y \<and> startsWith xs ys)"

fun includes_str :: "string \<Rightarrow> string \<Rightarrow> bool" where
  "includes_str [] sub = (sub = [])"
| "includes_str (x # xs) sub = (startsWith (x # xs) sub \<or> includes_str xs sub)"

section \<open>Errors\<close>

text \<open>
  What the code throws: the \<^verbatim>\<open>Error\<close> of \<^verbatim>\<open>getQuarterDateRange\<close> with the quarter
  it was given, a \<^verbatim>\<open>TypeError\<close> and a \<^verbatim>\<open>RangeError\<close>.
\<close>

datatype error = InvalidQuarter string | TypeError | RangeError

section \<open>Time slots (timeSlots.js)\<close>

text \<open>
  The times of day are strings \<^verbatim>\<open>"HH:MM"\<close> of two digits, a colon and two digits.
  Such a string is modelled by its two numbers: \<open>Time h m\<close>. On these strings
  \<^verbatim>\<open>===\<close> is equality of the two numbers, \<^verbatim>\<open>split(":").map(Number)\<close> gives them
  back, and both \<^verbatim>\<open><\<close> on the strings without their colon and \<^verbatim>\<open>localeCompare\<close>
  order them by hour, then minute.
\<close>

datatype TimeOfDay = Time (hour: nat) (minute: nat)

definition timeLess :: "TimeOfDay \<Rightarrow> TimeOfDay \<Rightarrow> bool" where
  "timeLess a b = (hour a < hour b \<or> (hour a = hour b \<and> minute a < minute b))"

record TimeSlot =
  start :: TimeOfDay
  end_t :: TimeOfDay

definition slot :: "TimeOfDay \<Rightarrow> TimeOfDay \<Rightarrow> TimeSlot" where
  "slot s e = \<lparr>start = s, end_t = e\<rparr>"

definition WEEKLY_SCHEDULE :: "(string \<times> TimeSlot list) list" where
  "WEEKLY_SCHEDULE =
   [(''MONDAY'',
      [slot (Time 6 0) (Time 6 30), slot (Time 7 0) (Time 7 30), slot (Time 9 0) (Time 9 30),
       slot (Time 10 0) (Time 10 30), slot (Time 11 0) (Time 11 30), slot (Time 12 0) (Time 12 30),
       slot (Time 13 0) (Time 13 30), slot (Time 14 0) (Time 14 30), slot (Time 15 0) (Time 15 30),
       slot (Time 16 0) (Time 16 30), slot (Time 17 0) (Time 17 30), slot (Time 18 0) (Time 18 30),
       slot (Time 19 0) (Time 19 30), slot (Time 20 0) (Time 20 30)]),
    (''TUESDAY'',
      [slot (Time 6 0) (Time 6 30), slot (Time 7 0) (Time 7 30), slot (Time 9 0) (Time 9 30),
       slot (Time 10 0) (Time 10 30), slot (Time 11 0) (Time 11 30), slot (Time 12 0) (Time 12 30),
       slot (Time 13 0) (Time 13 30), slot (Time 14 0) (Time 14 30), slot (Time 15 0) (Time 15 30),
       slot (Time 16 0) (Time 16 30), slot (Time 17 0) (Time 17 30)]),
    (''WEDNESDAY'',
      [slot (Time 6 0) (Time 6 30), slot (Time 7 0) (Time 7 30), slot (Time 8 0) (Time 8 30),
       slot (Time 9 0) (Time 9 30), slot (Time 10 0) (Time 10 30), slot (Time 11 0) (Time 11 30),
       slot (Time 12 0) (Time 12 30), slot (Time 13 0) (Time 13 30), slot (Time 14 0) (Time 14 30),
       slot (Time 15 0) (Time 15 30), slot (Time 16 0) (Time 16 30), slot (Time 17 0) (Time 17 30)]),
    (''THURSDAY'',
      [slot (Time 6 0) (Time 6 30), slot (Time 7 0) (Time 7 30), slot (Time 8 0) (Time 8 30),
       slot (Time 9 0) (Time 9 30), slot (Time 10 0) (Time 10 30), slot (Time 11 0) (Time 11 30),
       slot (Time 12 0) (Time 12 30), slot (Time 13 0) (Time 13 30), slot (Time 14 0) (Time 14 30),
       slot (Time 15 0) (Time 15 30), slot (Time 16 0) (Time 16 30), slot (Time 17 0) (Time 17 30)]),
    (''FRIDAY'',
      [slot (Time 6 0) (Time 6 30), slot (Time 7 0) (Time 7 30), slot (Time 8 0) (Time 8 30),
       slot (Time 9 0) (Time 9 30), slot (Time 10 0) (Time 10 30), slot (Time 11 0) (Time 11 30),
       slot (Time 12 0) (Time 12 30), slot (Time 13 0) (Time 13 30)])]"

definition DAY_NAMES :: "string list" where
  "DAY_NAMES = [''SUNDAY'', ''MONDAY'', ''TUESDAY'', ''WEDNESDAY'', ''THURSDAY'',
                ''FRIDAY'', ''SATURDAY'']"

text \<open>
  \<^verbatim>\<open>getThanksgivingDate\<close>: the loop walks forward from 1 November and returns the
  fourth Thursday it meets. On the Invalid Date \<^verbatim>\<open>getDay()\<close> is \<^verbatim>\<open>NaN\<close> and
  \<^verbatim>\<open>setDate\<close> leaves the date invalid, so the loop never ends: the result \<open>None\<close>
  is a loop that runs forever, \<open>Some date\<close> the returned \<^verbatim>\<open>Date\<close> object.
\<close>

partial_function (option) thanksgivingLoop :: "nat \<Rightarrow> Date option \<Rightarrow> Date option option" where
  "thanksgivingLoop thursdayCount date =
     (if thursdayCount < 4
      then (case date of
              None \<Rightarrow> thanksgivingLoop thursdayCount None
            | Some d \<Rightarrow>
                if getDay d = 4
                then (if thursdayCount + 1 = 4 then Some (Some d)
                      else thanksgivingLoop (thursdayCount + 1) (addDays d 1))
                else thanksgivingLoop thursdayCount (addDays d 1))
      else Some date)"

declare thanksgivingLoop.simps [code]

definition getThanksgivingDate :: "int \<Rightarrow> Date option option" where
  "getThanksgivingDate year = thanksgivingLoop 0 (Date_new year 10 1)"

record RestrictedDate =
  date_r :: "Date option"
  afterTime :: TimeOfDay

record SpecialDates =
  noSessionDates :: "Date option list"
  restrictedDates :: "RestrictedDate list"

text \<open>\<^verbatim>\<open>getSpecialDatesForYear\<close>; \<open>None\<close> when the Thanksgiving loop never ends.\<close>

definition getSpecialDatesForYear :: "int \<Rightarrow> SpecialDates option" where
  "getSpecialDatesForYear year =
     (case getThanksgivingDate year of
        None \<Rightarrow> None
      | Some thanksgiving \<Rightarrow>
          Some \<lparr>noSessionDates =
                  [Date_new year 0 1, Date_new year 6 4, thanksgiving, Date_new year 11 25],
                restrictedDates =
                  [\<lparr>date_r = Date_new year 3 17, afterTime = Time 8 30\<rparr>,
                   \<lparr>date_r = Date_new year 4 22, afterTime = Time 8 30\<rparr>,
                   \<lparr>date_r = Date_new year 5 19, afterTime = Time 8 30\<rparr>,
                   \<lparr>date_r = Date_new year 11 24, afterTime = Time 13 0\<rparr>,
                   \<lparr>date_r = Date_new year 11 31, afterTime = Time 13 0\<rparr>]\<rparr>)"

definition weeklySlots :: "string \<Rightarrow> TimeSlot list" where
  "weeklySlots dayName =
     (case map_of WEEKLY_SCHEDULE dayName of None \<Rightarrow> [] | Some slots \<Rightarrow> slots)"

text \<open>
  The two \<^verbatim>\<open>for\<close> loops over the special dates, each left at the first match.
  date-fns \<^verbatim>\<open>format\<close> throws a \<^verbatim>\<open>RangeError\<close> for the Invalid Date.
\<close>

fun isNoSessionDate :: "Date \<Rightarrow> Date option list \<Rightarrow> error + bool" where
  "isNoSessionDate d [] = Inr False"
| "isNoSessionDate d (noSessionDate # rest) =
     (case noSessionDate of
        None \<Rightarrow> Inl RangeError
      | Some n \<Rightarrow> if sameDay n d then Inr True else isNoSessionDate d rest)"

fun findRestricted :: "Date \<Rightarrow> RestrictedDate list \<Rightarrow> error + RestrictedDate option" where
  "findRestricted d [] = Inr None"
| "findRestricted d (restricted # rest) =
     (case date_r restricted of
        None \<Rightarrow> Inl RangeError
      | Some n \<Rightarrow> if sameDay n d then Inr (Some restricted) else findRestricted d rest)"

text \<open>
  \<^verbatim>\<open>getAvailableTimeSlots\<close> of a valid date: \<open>None\<close> when it never returns, \<open>Inl\<close> the
  error it throws.
\<close>

definition getAvailableTimeSlots :: "Date \<Rightarrow> (error + TimeSlot list) option" where
  "getAvailableTimeSlots d =
     (let dayName = DAY_NAMES ! getDay d
      in if dayName = ''SUNDAY'' \<or> dayName = ''SATURDAY'' then Some (Inr [])
         else
           (let baseSlots = weeklySlots dayName;
                year = getFullYear d
            in case getSpecialDatesForYear year of
                 None \<Rightarrow> None
               | Some specialDates \<Rightarrow>
                   (case isNoSessionDate d (noSessionDates specialDates) of
                      Inl e \<Rightarrow> Some (Inl e)
                    | Inr True \<Rightarrow> Some (Inr [])
                    | Inr False \<Rightarrow>
                        (case findRestricted d (restrictedDates specialDates) of
                           Inl e \<Rightarrow> Some (Inl e)
                         | Inr (Some restricted) \<Rightarrow>
                             Some (Inr (filter (\<lambda>slot. timeLess (start slot)
                                                        (afterTime restricted)) baseSlots))
                         | Inr None \<Rightarrow> Some (Inr baseSlots)))))"

definition getTimeDifferenceInHours :: "TimeOfDay \<Rightarrow> TimeOfDay \<Rightarrow> rat" where
  "getTimeDifferenceInHours time1 time2 =
     (let minutes1 = int (hour time1 * 60 + minute time1);
          minutes2 = int (hour time2 * 60 + minute time2)
      in \<bar>rat_of_int (minutes1 - minutes2)\<bar> / 60)"

text \<open>The test \<^verbatim>\<open>timeDiff < 3\<close> of the slot search.\<close>

definition lessThanThreeHours :: "TimeOfDay \<Rightarrow> TimeOfDay \<Rightarrow> bool" where
  "lessThanThreeHours time1 time2 = (getTimeDifferenceInHours time1 time2 < 3)"

definition isValidForFinancialIntelligence :: "string \<Rightarrow> TimeOfDay \<Rightarrow> bool" where
  "isValidForFinancialIntelligence dayName startT =
     (if dayName \<noteq> ''TUESDAY'' \<and> dayName \<noteq> ''WEDNESDAY'' then False
      else hour startT \<ge> 10 \<and> hour startT < 13)"

section \<open>Quarters (quarterUtils.js, financial year starting in April)\<close>

record QuarterInfo =
  name :: string
  months :: "int list"
  label :: string

definition QUARTERS :: "(string \<times> QuarterInfo) list" where
  "QUARTERS =
     [(''Q1'', \<lparr>name = ''Q1'', months = [4, 5, 6], label = ''Q1 (Apr-Jun)''\<rparr>),
      (''Q2'', \<lparr>name = ''Q2'', months = [7, 8, 9], label = ''Q2 (Jul-Sep)''\<rparr>),
      (''Q3'', \<lparr>name = ''Q3'', months = [10, 11, 12], label = ''Q3 (Oct-Dec)''\<rparr>),
      (''Q4'', \<lparr>name = ''Q4'', months = [1, 2, 3], label = ''Q4 (Jan-Mar)''\<rparr>)]"

text \<open>
  \<^verbatim>\<open>QUARTERS[quarter]\<close> finds the four own properties and also the properties that
  every object inherits from \<^verbatim>\<open>Object.prototype\<close>. The inherited ones are functions
  (\<^verbatim>\<open>__proto__\<close> is an object): they pass the test \<^verbatim>\<open>!quarterInfo\<close> and have no
  \<^verbatim>\<open>months\<close>, so that the destructuring of \<^verbatim>\<open>quarterInfo.months\<close> throws a
  \<^verbatim>\<open>TypeError\<close>.
\<close>

definition objectPrototypeProperties :: "string list" where
  "objectPrototypeProperties =
     [''constructor'', ''__defineGetter__'', ''__defineSetter__'', ''hasOwnProperty'',
      ''__lookupGetter__'', ''__lookupSetter__'', ''isPrototypeOf'',
      ''propertyIsEnumerable'', ''toString'', ''valueOf'', ''__proto__'',
      ''toLocaleString'']"

text \<open>\<^verbatim>\<open>getQuarterDateRange\<close>: \<open>Inl\<close> is the error thrown.\<close>

definition getQuarterDateRange ::
  "string \<Rightarrow> int \<Rightarrow> error + (Date option \<times> Date option)" where
  "getQuarterDateRange quarter year =
     (case map_of QUARTERS quarter of
        None \<Rightarrow>
          if quarter \<in> set objectPrototypeProperties then Inl TypeError
          else Inl (InvalidQuarter quarter)
      | Some quarterInfo \<Rightarrow>
          (let firstMonth = months quarterInfo ! 0;
               lastMonth = months quarterInfo ! 2;
               startYear = (if quarter = ''Q4'' then year + 1 else year);
               endYear = (if quarter = ''Q4'' then year + 1 else year);
               startDate = startOfMonth (Date_new startYear (firstMonth - 1) 1);
               endDate = endOfMonth (Date_new endYear (lastMonth - 1) 1)
           in Inr (startDate, endDate)))"

definition getFinancialYearStart :: "int \<Rightarrow> Date option" where
  "getFinancialYearStart year = Date_new year 3 1"

text \<open>
  The loop of \<^verbatim>\<open>getAllDatesInQuarter\<close>; the test \<^verbatim>\<open>currentDate <= endDate\<close> fails
  when one of the two dates is invalid.
\<close>

function datesLoop :: "Date option \<Rightarrow> Date option \<Rightarrow> Date list \<Rightarrow> Date list" where
  "datesLoop currentDate endDate dates =
     (case currentDate of
        None \<Rightarrow> dates
      | Some c \<Rightarrow>
          if dateLe (Some c) endDate
          then datesLoop (addDays c 1) endDate (dates @ [c])
          else dates)"
  by pat_completeness auto
termination
proof (relation "measure (\<lambda>(c, e, ds).
         case c of None \<Rightarrow> 0
         | Some x \<Rightarrow> (case e of None \<Rightarrow> 0 | Some y \<Rightarrow> nat (y - x + 2)))")
  show "wf (measure (\<lambda>(c, e, ds).
         case c of None \<Rightarrow> 0
         | Some x \<Rightarrow> (case e of None \<Rightarrow> 0 | Some y \<Rightarrow> nat (y - x + 2))))"
    by simp
  show "((addDays c 1, endDate, dates @ [c]), currentDate, endDate, dates)
      \<in> measure (\<lambda>(c, e, ds).
         case c of None \<Rightarrow> 0
         | Some x \<Rightarrow> (case e of None \<Rightarrow> 0 | Some y \<Rightarrow> nat (y - x + 2)))"
    if "currentDate = Some c" "dateLe (Some c) endDate"
    for currentDate endDate dates c
    using that
    by (auto simp: dateLe_def addDays_def TimeClip_def split: option.splits)
qed

declare datesLoop.simps [simp del]

definition getAllDatesInQuarter :: "string \<Rightarrow> int \<Rightarrow> error + Date list" where
  "getAllDatesInQuarter quarter year =
     (case getQuarterDateRange quarter year of
        Inl e \<Rightarrow> Inl e
      | Inr (startDate, endDate) \<Rightarrow> Inr (datesLoop startDate endDate []))"

definition getWeekdaysInQuarter :: "string \<Rightarrow> int \<Rightarrow> error + Date list" where
  "getWeekdaysInQuarter quarter year =
     (case getAllDatesInQuarter quarter year of
        Inl e \<Rightarrow> Inl e
      | Inr allDates \<Rightarrow>
          Inr (filter (\<lambda>date. let day = getDay date in day \<ge> 1 \<and> day \<le> 5) allDates))"

section \<open>The schedule engine (scheduleEngine.js)\<close>

record Course =
  title :: string
  cadence :: nat
  sessions :: nat

text \<open>The occupant \<^verbatim>\<open>{course, sessionNumber}\<close> a booked grid slot carries.\<close>

record Occupant =
  course :: string
  sessionNumber_o :: nat

text \<open>A grid slot is \<^verbatim>\<open>{...slot, available, session}\<close>; \<open>None\<close> is \<^verbatim>\<open>null\<close>.\<close>

record GridSlot = TimeSlot +
  available :: bool
  session :: "Occupant option"

record DayData =
  date_d :: Date
  slots :: "GridSlot list"

text \<open>
  The availability grid is a \<^verbatim>\<open>Map\<close> from date keys to day data; it is kept as an
  association list in insertion order, which is the order \<^verbatim>\<open>forEach\<close> visits.
\<close>

type_synonym Grid = "(dateKey \<times> DayData) list"

record ScheduledSession =
  date :: Date
  courseName :: string
  sessionNumber :: nat
  startTime :: TimeOfDay
  endTime :: TimeOfDay
  instructorFirstName :: string
  instructorLastName :: string

record HistoryEntry =
  startDate :: Date
  dayOfWeek_h :: string
  startTime_h :: TimeOfDay

type_synonym History = "string \<rightharpoonup> HistoryEntry list"

text \<open>\<^verbatim>\<open>courseHistory.get(title) || []\<close>\<close>

definition historyOf :: "History \<Rightarrow> string \<Rightarrow> HistoryEntry list" where
  "historyOf courseHistory t = (case courseHistory t of None \<Rightarrow> [] | Some h \<Rightarrow> h)"

text \<open>The slot \<^verbatim>\<open>findSuitableSlot\<close> returns.\<close>

record SuitableSlot =
  dayOfWeek :: string
  startTime_c :: TimeOfDay
  endTime_c :: TimeOfDay

text \<open>\<^verbatim>\<open>findIndex\<close> and \<^verbatim>\<open>indexOf\<close>; \<open>None\<close> is the result \<^verbatim>\<open>-1\<close>.\<close>

fun findIndex :: "('a \<Rightarrow> bool) \<Rightarrow> 'a list \<Rightarrow> nat option" where
  "findIndex P [] = None"
| "findIndex P (x # xs) =
     (if P x then Some 0 else map_option Suc (findIndex P xs))"

definition indexOf :: "'a list \<Rightarrow> 'a \<Rightarrow> nat option" where
  "indexOf xs x = findIndex (\<lambda>y. y = x) xs"

definition freshSlot :: "TimeSlot \<Rightarrow> GridSlot" where
  "freshSlot sl = \<lparr>start = start sl, end_t = end_t sl, available = True, session = None\<rparr>"

text \<open>The \<^verbatim>\<open>dates.forEach\<close> loop of \<^verbatim>\<open>initializeAvailabilityGrid\<close>.\<close>

fun initGridLoop :: "Date list \<Rightarrow> Grid \<Rightarrow> (error + Grid) option" where
  "initGridLoop [] grid = Some (Inr grid)"
| "initGridLoop (d # rest) grid =
     (case getAvailableTimeSlots d of
        None \<Rightarrow> None
      | Some (Inl e) \<Rightarrow> Some (Inl e)
      | Some (Inr daySlots) \<Rightarrow>
          initGridLoop rest
            (AList.update (format d)
               \<lparr>date_d = d, slots = map freshSlot daySlots\<rparr> grid))"

text \<open>
  \<^verbatim>\<open>initializeAvailabilityGrid\<close>: \<open>None\<close> when it never returns, \<open>Inl\<close> the error it
  throws.
\<close>

definition initializeAvailabilityGrid :: "Date list \<Rightarrow> (error + Grid) option" where
  "initializeAvailabilityGrid dates = initGridLoop dates []"

text \<open>The \<^verbatim>\<open>for (const slot of dayData.slots)\<close> loop of \<^verbatim>\<open>findSuitableSlot\<close>.\<close>

fun findSlotLoop ::
  "string \<Rightarrow> HistoryEntry option \<Rightarrow> bool \<Rightarrow> GridSlot list \<Rightarrow> SuitableSlot option" where
  "findSlotLoop dow lastInstance isFinancialIntelligence [] = None"
| "findSlotLoop dow lastInstance isFinancialIntelligence (sl # rest) =
     (if \<not> available sl
      then findSlotLoop dow lastInstance isFinancialIntelligence rest
      else if isFinancialIntelligence \<and> \<not> isValidForFinancialIntelligence dow (start sl)
      then findSlotLoop dow lastInstance isFinancialIntelligence rest
      else
        (case lastInstance of
           None \<Rightarrow>
             Some \<lparr>dayOfWeek = dow, startTime_c = start sl, endTime_c = end_t sl\<rparr>
         | Some li \<Rightarrow>
             if \<not> isFinancialIntelligence \<and> dow = dayOfWeek_h li
             then findSlotLoop dow lastInstance isFinancialIntelligence rest
             else if lessThanThreeHours (start sl) (startTime_h li)
             then findSlotLoop dow lastInstance isFinancialIntelligence rest
             else Some \<lparr>dayOfWeek = dow, startTime_c = start sl, endTime_c = end_t sl\<rparr>))"

definition findSuitableSlot ::
  "Date \<Rightarrow> Course \<Rightarrow> Grid \<Rightarrow> HistoryEntry list \<Rightarrow> bool \<Rightarrow> SuitableSlot option" where
  "findSuitableSlot d c availabilityGrid history isFinancialIntelligence =
     (let dateKey = format d
      in case map_of availabilityGrid dateKey of
           None \<Rightarrow> None
         | Some dayData \<Rightarrow>
             (let dow = DAY_NAMES ! getDay d;
                  lastInstance = (if history = [] then None else Some (last history))
              in findSlotLoop dow lastInstance isFinancialIntelligence (slots dayData)))"

text \<open>
  \<^verbatim>\<open>findNextAvailableDate\<close>; the result \<open>None\<close> is \<^verbatim>\<open>null\<close>. The quarter dates are
  valid dates, \<open>fromDate\<close> can be the Invalid Date.
\<close>

definition findNextAvailableDate ::
  "Date option \<Rightarrow> string \<Rightarrow> Date list \<Rightarrow> Date option" where
  "findNextAvailableDate fromDate targetDayOfWeek quarterDates =
     (let targetDayIndex = indexOf DAY_NAMES targetDayOfWeek
      in find (\<lambda>d. dateLe fromDate (Some d) \<and> Some (getDay d) = targetDayIndex)
           quarterDates)"

text \<open>
  The day data a key maps to is an object that booking and rollback change in place;
  \<open>modifyDay\<close> is that change on the entry of the key.
\<close>

definition modifyDay :: "dateKey \<Rightarrow> (DayData \<Rightarrow> DayData) \<Rightarrow> Grid \<Rightarrow> Grid" where
  "modifyDay k f grid = map (\<lambda>(k', dd). if k' = k then (k', f dd) else (k', dd)) grid"

definition setSlot :: "nat \<Rightarrow> bool \<Rightarrow> Occupant option \<Rightarrow> DayData \<Rightarrow> DayData" where
  "setSlot slotIndex a occ dayData =
     dayData\<lparr>slots := (slots dayData)
       [slotIndex := (slots dayData ! slotIndex)\<lparr>available := a, session := occ\<rparr>]\<rparr>"

definition rollbackSession :: "ScheduledSession \<Rightarrow> Grid \<Rightarrow> Grid" where
  "rollbackSession s availabilityGrid =
     (let dateKey = format (date s)
      in case map_of availabilityGrid dateKey of
           None \<Rightarrow> availabilityGrid
         | Some dayData \<Rightarrow>
             (case findIndex (\<lambda>sl. start sl = startTime s) (slots dayData) of
                None \<Rightarrow> availabilityGrid
              | Some slotIndex \<Rightarrow>
                  modifyDay dateKey (setSlot slotIndex True None) availabilityGrid))"

fun rollbackSessions :: "ScheduledSession list \<Rightarrow> Grid \<Rightarrow> Grid" where
  "rollbackSessions [] availabilityGrid = availabilityGrid"
| "rollbackSessions (s # rest) availabilityGrid =
     rollbackSessions rest (rollbackSession s availabilityGrid)"

definition newSession :: "Course \<Rightarrow> SuitableSlot \<Rightarrow> Date \<Rightarrow> nat \<Rightarrow> ScheduledSession" where
  "newSession c suitableSlot sessionDate sessionNum =
     \<lparr>date = sessionDate, courseName = title c, sessionNumber = sessionNum,
      startTime = startTime_c suitableSlot, endTime = endTime_c suitableSlot,
      instructorFirstName = [], instructorLastName = []\<rparr>"

text \<open>
  The booking loop of \<^verbatim>\<open>scheduleCourseSessions\<close>, from session number
  \<open>sessionNum\<close> on; \<open>booked\<close> is the local list \<^verbatim>\<open>sessions\<close>.
\<close>

function bookLoop ::
  "Course \<Rightarrow> SuitableSlot \<Rightarrow> Date list \<Rightarrow> nat \<Rightarrow> Date option \<Rightarrow> Grid
   \<Rightarrow> ScheduledSession list \<Rightarrow> ScheduledSession list \<times> Grid" where
  "bookLoop c suitableSlot quarterDates sessionNum currentSessionDate availabilityGrid booked =
     (if sessionNum \<le> sessions c
      then
        (case findNextAvailableDate currentSessionDate (dayOfWeek suitableSlot) quarterDates of
           None \<Rightarrow> ([], rollbackSessions booked availabilityGrid)
         | Some sessionDate \<Rightarrow>
             (case map_of availabilityGrid (format sessionDate) of
                None \<Rightarrow> ([], rollbackSessions booked availabilityGrid)
              | Some dayData \<Rightarrow>
                  (case findIndex (\<lambda>s. start s = startTime_c suitableSlot \<and> available s)
                          (slots dayData) of
                     None \<Rightarrow> ([], rollbackSessions booked availabilityGrid)
                   | Some slotIndex \<Rightarrow>
                       bookLoop c suitableSlot quarterDates (sessionNum + 1)
                         (addWeeks sessionDate 1)
                         (modifyDay (format sessionDate)
                            (setSlot slotIndex False
                               (Some \<lparr>course = title c, sessionNumber_o = sessionNum\<rparr>))
                            availabilityGrid)
                         (booked @ [newSession c suitableSlot sessionDate sessionNum]))))
      else (booked, availabilityGrid))"
  by pat_completeness auto
termination
  by (relation "measure (\<lambda>(c, sl, qd, n, d, g, b). sessions c + 1 - n)") auto

declare bookLoop.simps [simp del]

definition scheduleCourseSessions ::
  "Course \<Rightarrow> Date \<Rightarrow> Date list \<Rightarrow> Grid \<Rightarrow> History \<Rightarrow> bool \<Rightarrow> ScheduledSession list \<times> Grid" where
  "scheduleCourseSessions c startD quarterDates availabilityGrid courseHistory
       isFinancialIntelligence =
     (let history = historyOf courseHistory (title c)
      in case findSuitableSlot startD c availabilityGrid history isFinancialIntelligence of
           None \<Rightarrow> ([], availabilityGrid)
         | Some suitableSlot \<Rightarrow>
             bookLoop c suitableSlot quarterDates 1 (Some startD) availabilityGrid [])"

text \<open>
  \<^verbatim>\<open>setFullYear\<close>, \<^verbatim>\<open>setMonth\<close> and \<^verbatim>\<open>setDate\<close> on a valid date; the result
  can be the Invalid Date.
\<close>

definition setFullYear :: "Date \<Rightarrow> int \<Rightarrow> Date option" where
  "setFullYear d y = TimeClip (MakeDay y (getMonth d) (getDate d))"

definition setMonth :: "Date \<Rightarrow> int \<Rightarrow> Date option" where
  "setMonth d m = TimeClip (MakeDay (getFullYear d) m (getDate d))"

definition setDate :: "Date \<Rightarrow> int \<Rightarrow> Date option" where
  "setDate d n = TimeClip (MakeDay (getFullYear d) (getMonth d) n)"

text \<open>
  The first loop of \<^verbatim>\<open>calculateCadenceStartDates\<close>: on to the first weekday. On the
  Invalid Date \<^verbatim>\<open>getDay()\<close> is \<^verbatim>\<open>NaN\<close> and the loop is left at once.
\<close>

function skipWeekend :: "Date option \<Rightarrow> Date option" where
  "skipWeekend currentDate =
     (case currentDate of
        None \<Rightarrow> None
      | Some d \<Rightarrow>
          if getDay d = 0 \<or> getDay d = 6
          then skipWeekend (addDays d 1)
          else Some d)"
  by pat_completeness auto
termination
proof (relation "measure (\<lambda>c. case c of None \<Rightarrow> 0
         | Some d \<Rightarrow> if getDay d = 6 then 3 else if getDay d = 0 then 2 else 1)")
  have succ: "getDay (d + 1) = (if getDay d = 6 then 0 else getDay d + 1)" for d
  proof -
    define r where "r = (d + 4) mod 7"
    have r: "0 \<le> r" "r < 7" by (simp_all add: r_def)
    have "d + 1 + 4 = (d + 4) + 1" by simp
    then have "(d + 1 + 4) mod 7 = (r + 1) mod 7"
      unfolding r_def by (simp only: mod_add_left_eq)
    also have "\<dots> = (if r = 6 then 0 else r + 1)"
      using r by (simp add: mod_pos_pos_trivial)
    finally have "(d + 1 + 4) mod 7 = (if r = 6 then 0 else r + 1)" .
    then show ?thesis
      using r unfolding getDay_def r_def [symmetric]
      by (auto simp: nat_add_distrib nat_eq_iff)
  qed
  show "wf (measure (\<lambda>c. case c of None \<Rightarrow> 0
         | Some d \<Rightarrow> if getDay d = 6 then 3 else if getDay d = 0 then 2 else (1::nat)))"
    by simp
  show "(addDays d 1, currentDate)
      \<in> measure (\<lambda>c. case c of None \<Rightarrow> 0
         | Some d \<Rightarrow> if getDay d = 6 then 3 else if getDay d = 0 then 2 else 1)"
    if "currentDate = Some d" "getDay d = 0 \<or> getDay d = 6" for currentDate d
    using that by (auto simp: succ addDays_def TimeClip_def)
qed

declare skipWeekend.simps [simp del]

text \<open>
  The second loop of \<^verbatim>\<open>calculateCadenceStartDates\<close>. It does not end when the
  cadence is 0, so its result is an option: \<open>None\<close> is a loop that runs forever. The
  test \<^verbatim>\<open>currentDate <= quarterDates[quarterDates.length - 1]\<close> fails for an empty
  list of quarter dates.
\<close>

partial_function (option) cadenceLoop ::
  "int \<Rightarrow> Date option \<Rightarrow> Date list \<Rightarrow> Date option \<Rightarrow> Date list \<Rightarrow> Date list option" where
  "cadenceLoop weeks financialYearEnd quarterDates currentDate cadenceDates =
     (case currentDate of
        None \<Rightarrow> Some cadenceDates
      | Some cur \<Rightarrow>
          if dateLe (Some cur) financialYearEnd
          then cadenceLoop weeks financialYearEnd quarterDates (addWeeks cur weeks)
                 (if quarterDates \<noteq> [] \<and> cur \<le> last quarterDates
                  then cadenceDates @ [cur] else cadenceDates)
          else Some cadenceDates)"

declare cadenceLoop.simps [code]

text \<open>
  \<^verbatim>\<open>calculateCadenceStartDates\<close>. The three setters leave the Invalid Date invalid
  (\<^verbatim>\<open>getFullYear() + 1\<close> is \<^verbatim>\<open>NaN\<close> then).
\<close>

definition calculateCadenceStartDates ::
  "Course \<Rightarrow> Date option \<Rightarrow> Date list \<Rightarrow> Date list option" where
  "calculateCadenceStartDates c financialYearStart quarterDates =
     (let financialYearEnd =
            Option.bind
              (Option.bind
                 (Option.bind financialYearStart (\<lambda>d. setFullYear d (getFullYear d + 1)))
                 (\<lambda>d. setMonth d 2))
              (\<lambda>d. setDate d 31);
          currentDate = skipWeekend financialYearStart
      in cadenceLoop (int (cadence c)) financialYearEnd quarterDates currentDate [])"

text \<open>
  The engine state that the loops of \<^verbatim>\<open>scheduleCourse\<close> change: the sessions
  collected so far, the grid and the course history.
\<close>

type_synonym EngineState = "ScheduledSession list \<times> Grid \<times> History"

definition historyEntry :: "Date \<Rightarrow> ScheduledSession list \<Rightarrow> HistoryEntry" where
  "historyEntry startD scheduled =
     \<lparr>startDate = startD, dayOfWeek_h = DAY_NAMES ! getDay startD,
      startTime_h = startTime (scheduled ! 0)\<rparr>"

text \<open>The \<^verbatim>\<open>for (const startDate of availableDates)\<close> loop.\<close>

fun tryStartDates :: "Course \<Rightarrow> bool \<Rightarrow> Date list \<Rightarrow> Date list \<Rightarrow> EngineState \<Rightarrow> EngineState" where
  "tryStartDates c isFI quarterDates [] st = st"
| "tryStartDates c isFI quarterDates (startD # rest) (collected, availabilityGrid, courseHistory) =
     (case scheduleCourseSessions c startD quarterDates availabilityGrid courseHistory isFI of
        (scheduled, grid') \<Rightarrow>
          if length scheduled > 0
          then tryStartDates c isFI quarterDates rest
                 (collected @ scheduled, grid',
                  courseHistory(title c \<mapsto>
                    historyOf courseHistory (title c) @ [historyEntry startD scheduled]))
          else tryStartDates c isFI quarterDates rest (collected, grid', courseHistory))"

definition isFinancialIntelligenceTitle :: "string \<Rightarrow> bool" where
  "isFinancialIntelligenceTitle t = includes_str (toLowerCase t) ''financial intelligence''"

text \<open>The \<^verbatim>\<open>cadenceStartDates.forEach\<close> loop.\<close>

fun cadencePeriods :: "Course \<Rightarrow> bool \<Rightarrow> Date list \<Rightarrow> Date list \<Rightarrow> EngineState \<Rightarrow> EngineState" where
  "cadencePeriods c isFI quarterDates [] st = st"
| "cadencePeriods c isFI quarterDates (cadenceDate # rest) st =
     cadencePeriods c isFI quarterDates rest
       (tryStartDates c isFI quarterDates (filter (\<lambda>d. d \<ge> cadenceDate) quarterDates) st)"

definition scheduleCourse ::
  "Course \<Rightarrow> Date option \<Rightarrow> Date list \<Rightarrow> Grid \<Rightarrow> History \<Rightarrow> EngineState option" where
  "scheduleCourse c financialYearStart quarterDates availabilityGrid courseHistory =
     (let isFinancialIntelligence = isFinancialIntelligenceTitle (title c)
      in case calculateCadenceStartDates c financialYearStart quarterDates of
           None \<Rightarrow> None
         | Some cadenceStartDates \<Rightarrow>
             Some (cadencePeriods c isFinancialIntelligence quarterDates cadenceStartDates
                     ([], availabilityGrid, courseHistory)))"

text \<open>The \<^verbatim>\<open>courses.forEach\<close> loop of \<^verbatim>\<open>generateSchedule\<close>.\<close>

fun scheduleCourses ::
  "Course list \<Rightarrow> Date option \<Rightarrow> Date list \<Rightarrow> EngineState \<Rightarrow> EngineState option" where
  "scheduleCourses [] financialYearStart quarterDates st = Some st"
| "scheduleCourses (c # rest) financialYearStart quarterDates
       (scheduled, availabilityGrid, courseHistory) =
     (case scheduleCourse c financialYearStart quarterDates availabilityGrid courseHistory of
        None \<Rightarrow> None
      | Some (collected, grid', history') \<Rightarrow>
          scheduleCourses rest financialYearStart quarterDates
            (scheduled @ collected, grid', history'))"

text \<open>
  The comparator of the final sort (by date, then \<^verbatim>\<open>localeCompare\<close> on the start
  times) and the stable sort by it.
\<close>

definition localeCompare :: "TimeOfDay \<Rightarrow> TimeOfDay \<Rightarrow> int" where
  "localeCompare a b = (if timeLess a b then - 1 else if timeLess b a then 1 else 0)"

definition compareSessions :: "ScheduledSession \<Rightarrow> ScheduledSession \<Rightarrow> int" where
  "compareSessions a b =
     (if date a \<noteq> date b then date a - date b
      else localeCompare (startTime a) (startTime b))"

fun insertSession :: "ScheduledSession \<Rightarrow> ScheduledSession list \<Rightarrow> ScheduledSession list" where
  "insertSession x [] = [x]"
| "insertSession x (y # ys) =
     (if compareSessions x y < 0 then x # y # ys else y # insertSession x ys)"

definition sortSessions :: "ScheduledSession list \<Rightarrow> ScheduledSession list" where
  "sortSessions xs = foldl (\<lambda>acc x. insertSession x acc) [] xs"

section \<open>Statistics\<close>

text \<open>
  \<^verbatim>\<open>toFixed(2)\<close>: the nearest number with two decimal places, the larger one on a
  tie. The quotient is taken in exact rational arithmetic.
\<close>

definition toFixed2 :: "rat \<Rightarrow> rat" where
  "toFixed2 x = of_int \<lfloor>x * 100 + 1 / 2\<rfloor> / 100"

record Statistics =
  totalAvailableSlots :: nat
  slotsAfterScheduling :: nat
  totalScheduledSessions :: nat
  fullyBookedDates :: "Date list"
  utilizationPercentage :: rat

definition dayAvailable :: "DayData \<Rightarrow> nat" where
  "dayAvailable dayData = length (filter available (slots dayData))"

definition calculateStatistics :: "Grid \<Rightarrow> ScheduledSession list \<Rightarrow> Statistics" where
  "calculateStatistics availabilityGrid scheduled =
     (let totalSlots = sum_list (map (\<lambda>(dateKey, dayData). length (slots dayData))
                                  availabilityGrid);
          availableSlots = sum_list (map (\<lambda>(dateKey, dayData). dayAvailable dayData)
                                      availabilityGrid)
      in \<lparr>totalAvailableSlots = totalSlots,
          slotsAfterScheduling = availableSlots,
          totalScheduledSessions = length scheduled,
          fullyBookedDates =
            map (\<lambda>(dateKey, dayData). date_d dayData)
              (filter (\<lambda>(dateKey, dayData).
                         length (slots dayData) > 0 \<and> dayAvailable dayData = 0)
                 availabilityGrid),
          utilizationPercentage =
            (if totalSlots > 0
             then toFixed2 ((rat_of_nat (totalSlots - availableSlots) / rat_of_nat totalSlots)
                            * 100)
             else 0)\<rparr>)"

section \<open>generateSchedule\<close>

text \<open>
  \<open>runEngine\<close> is \<^verbatim>\<open>generateSchedule\<close> up to its \<^verbatim>\<open>return\<close>: the sorted
  sessions together with the grid and the course history as they are at that point.
  \<open>Inl\<close> is the error thrown for the quarter, \<open>None\<close> a run that never ends.
\<close>

definition runEngine :: "Course list \<Rightarrow> string \<Rightarrow> int \<Rightarrow> (error + EngineState) option" where
  "runEngine courses quarter year =
     (let financialYearStart = getFinancialYearStart year
      in case getWeekdaysInQuarter quarter year of
           Inl e \<Rightarrow> Some (Inl e)
         | Inr quarterDates \<Rightarrow>
             (case initializeAvailabilityGrid quarterDates of
                None \<Rightarrow> None
              | Some (Inl e) \<Rightarrow> Some (Inl e)
              | Some (Inr availabilityGrid) \<Rightarrow>
                  (case scheduleCourses courses financialYearStart quarterDates
                          ([], availabilityGrid, Map.empty) of
                     None \<Rightarrow> None
                   | Some (scheduled, grid', history') \<Rightarrow>
                       Some (Inr (sortSessions scheduled, grid', history')))))"

record ScheduleResult =
  scheduledSessions :: "ScheduledSession list"
  statistics :: Statistics

text \<open>
  The result of \<^verbatim>\<open>generateSchedule\<close> (its \<^verbatim>\<open>calendarData\<close> view, which is rebuilt
  from the session list, is left out).
\<close>

definition generateSchedule :: "Course list \<Rightarrow> string \<Rightarrow> int \<Rightarrow> (error + ScheduleResult) option" where
  "generateSchedule courses quarter year =
     (case runEngine courses quarter year of
        None \<Rightarrow> None
      | Some (Inl e) \<Rightarrow> Some (Inl e)
      | Some (Inr (scheduled, availabilityGrid, courseHistory)) \<Rightarrow>
          Some (Inr \<lparr>scheduledSessions = scheduled,
                     statistics = calculateStatistics availabilityGrid scheduled\<rparr>))"

section \<open>Predicates used in the properties\<close>

text \<open>The slot times of a day, in order, without the booking state.\<close>

definition skeleton :: "DayData \<Rightarrow> (TimeOfDay \<times> TimeOfDay) list" where
  "skeleton dd = map (\<lambda>sl. (start sl, end_t sl)) (slots dd)"

text \<open>
  A well-formed grid: one entry per key, each entry filed under the key of its date,
  holding the slots of \<^verbatim>\<open>getAvailableTimeSlots\<close> for that date, a free slot having no
  occupant. The initial grid is well-formed and booking and rollback keep it so.
\<close>

definition wfDay :: "dateKey \<times> DayData \<Rightarrow> bool" where
  "wfDay e =
     (fst e = format (date_d (snd e))
      \<and> (case getAvailableTimeSlots (date_d (snd e)) of
           Some (Inr daySlots) \<Rightarrow>
             skeleton (snd e) = map (\<lambda>sl. (start sl, end_t sl)) daySlots
         | _ \<Rightarrow> False)
      \<and> list_all (\<lambda>sl. available sl \<longrightarrow> session sl = None) (slots (snd e)))"

definition wfGrid :: "Grid \<Rightarrow> bool" where
  "wfGrid g = (distinct (map fst g) \<and> list_all wfDay g)"

definition sessionKey :: "ScheduledSession \<Rightarrow> dateKey \<times> TimeOfDay" where
  "sessionKey s = (format (date s), startTime s)"

definition occupiedKeys :: "Grid \<Rightarrow> (dateKey \<times> TimeOfDay) set" where
  "occupiedKeys g =
     {(k, start sl) | k dd sl. (k, dd) \<in> set g \<and> sl \<in> set (slots dd) \<and> \<not> available sl}"

definition freeCount :: "Grid \<Rightarrow> nat" where
  "freeCount g = sum_list (map (\<lambda>(k, dd). dayAvailable dd) g)"

definition totalCount :: "Grid \<Rightarrow> nat" where
  "totalCount g = sum_list (map (\<lambda>(k, dd). length (slots dd)) g)"

text \<open>The sessions of one instance: weekly from \<open>d0\<close>, numbered from 1.\<close>

definition instanceSessions ::
  "Course \<Rightarrow> Date \<Rightarrow> TimeOfDay \<Rightarrow> TimeOfDay \<Rightarrow> ScheduledSession list" where
  "instanceSessions c d0 st et =
     map (\<lambda>i. \<lparr>date = d0 + 7 * int i, courseName = title c, sessionNumber = i + 1,
               startTime = st, endTime = et,
               instructorFirstName = [], instructorLastName = []\<rparr>)
       [0..<sessions c]"

text \<open>Days from a weekday to the next Thursday.\<close>

definition daysToThursday :: "nat \<Rightarrow> nat" where
  "daysToThursday g = (if g \<le> 4 then 4 - g else 11 - g)"

text \<open>The weekdays from day \<open>lo\<close> to day \<open>hi\<close>, in order.\<close>

definition weekdaysBetween :: "Date \<Rightarrow> Date \<Rightarrow> Date list" where
  "weekdaysBetween lo hi = filter (\<lambda>d. 1 \<le> getDay d \<and> getDay d \<le> 5) [lo..hi]"

text \<open>
  The years for which every date that a run makes is a valid date: all days of the
  year and of the year after it are within the range of \<^verbatim>\<open>Date\<close>.
\<close>

definition yearInRange :: "int \<Rightarrow> bool" where
  "yearInRange year = (- 271820 \<le> year \<and> year \<le> 275758)"

text \<open>The dates the booking loop visits: \<open>k\<close> times the next matching quarter date.\<close>

fun nextDates :: "string \<Rightarrow> Date list \<Rightarrow> Date option \<Rightarrow> nat \<Rightarrow> Date list option" where
  "nextDates dow quarterDates cur 0 = Some []"
| "nextDates dow quarterDates cur (Suc k) =
     (case findNextAvailableDate cur dow quarterDates of
        None \<Rightarrow> None
      | Some d \<Rightarrow> map_option ((#) d) (nextDates dow quarterDates (addWeeks d 1) k))"

text \<open>
  Separation of two instance starts: different weekdays and start times at least three
  hours apart.
\<close>

definition hoursApart :: "TimeOfDay \<Rightarrow> TimeOfDay \<Rightarrow> bool" where
  "hoursApart t1 t2 = (\<not> lessThanThreeHours t1 t2)"

text \<open>The history of a course, each entry against the one before it.\<close>

fun separated :: "HistoryEntry list \<Rightarrow> bool" where
  "separated (a # b # rest) =
     (dayOfWeek_h b \<noteq> dayOfWeek_h a \<and> hoursApart (startTime_h b) (startTime_h a)
      \<and> separated (b # rest))"
| "separated [a] = True"
| "separated [] = True"

text \<open>
  The instances of a course in a session list (their first sessions), and the
  separation of each from the next one in the list.
\<close>

definition instanceStarts :: "string \<Rightarrow> ScheduledSession list \<Rightarrow> (Date \<times> TimeOfDay) list" where
  "instanceStarts t ss =
     map (\<lambda>s. (date s, startTime s))
       (filter (\<lambda>s. courseName s = t \<and> sessionNumber s = 1) ss)"

fun startsSeparated :: "(Date \<times> TimeOfDay) list \<Rightarrow> bool" where
  "startsSeparated (a # b # rest) =
     (getDay (fst a) \<noteq> getDay (fst b) \<and> hoursApart (snd a) (snd b)
      \<and> startsSeparated (b # rest))"
| "startsSeparated [a] = True"
| "startsSeparated [] = True"

text \<open>The session list of a result (empty when there is none).\<close>

definition sessionsOf :: "(error + ScheduleResult) option \<Rightarrow> ScheduledSession list" where
  "sessionsOf r = (case r of Some (Inr x) \<Rightarrow> scheduledSessions x | _ \<Rightarrow> [])"

text \<open>The full-day exclusions: a weekend day or one of the four holidays of its year.\<close>

definition fullDayExclusion :: "Date \<Rightarrow> bool" where
  "fullDayExclusion d =
     (getDay d = 0 \<or> getDay d = 6
      \<or> (getMonth d = 0 \<and> getDate d = 1)
      \<or> (getMonth d = 6 \<and> getDate d = 4)
      \<or> (getMonth d = 11 \<and> getDate d = 25)
      \<or> (getMonth d = 10 \<and> getDay d = 4 \<and> 22 \<le> getDate d \<and> getDate d \<le> 28))"


text \<open>A day has an occupied slot with the given start time.\<close>

definition occupiedIn :: "DayData \<Rightarrow> TimeOfDay \<Rightarrow> bool" where
  "occupiedIn dd st = (\<exists>sl \<in> set (slots dd). start sl = st \<and> \<not> available sl)"

text \<open>
  The state of the booking loop: the grid \<open>g\<close> after the sessions \<open>bs\<close> were booked
  into the grid \<open>g0\<close>, all at the start time \<open>st\<close>.
\<close>

definition bookInv :: "Grid \<Rightarrow> Grid \<Rightarrow> ScheduledSession list \<Rightarrow> TimeOfDay \<Rightarrow> bool" where
  "bookInv g0 g bs st =
     (wfGrid g0 \<and> wfGrid g \<and> map fst g = map fst g0 \<and> rollbackSessions bs g = g0
      \<and> (\<forall>d. format d \<notin> (\<lambda>s. format (date s)) ` set bs \<longrightarrow>
             map_of g (format d) = map_of g0 (format d))
      \<and> distinct (map sessionKey bs)
      \<and> occupiedKeys g = occupiedKeys g0 \<union> set (map sessionKey bs)
      \<and> set (map sessionKey bs) \<inter> occupiedKeys g0 = {}
      \<and> (\<forall>s \<in> set bs. startTime s = st)
      \<and> freeCount g + length bs = freeCount g0
      \<and> totalCount g = totalCount g0)"

text \<open>
  The grid and the session list agree: the occupied slots are the slots of the sessions,
  no two sessions have the same date and start time, and the free slots and the
  sessions add up to all slots.
\<close>

definition consistent :: "Grid \<Rightarrow> ScheduledSession list \<Rightarrow> bool" where
  "consistent g ss =
     (wfGrid g \<and> distinct (map sessionKey ss) \<and> occupiedKeys g = set (map sessionKey ss)
      \<and> freeCount g + length ss = totalCount g)"

text \<open>A session of the special course lies in the window of that course.\<close>

definition specialOk :: "ScheduledSession \<Rightarrow> bool" where
  "specialOk s =
     (isFinancialIntelligenceTitle (courseName s) \<longrightarrow>
      isValidForFinancialIntelligence (DAY_NAMES ! getDay (date s)) (startTime s))"

text \<open>A session belongs to a complete instance of one of the courses.\<close>

definition inInstance :: "Course list \<Rightarrow> ScheduledSession list \<Rightarrow> ScheduledSession \<Rightarrow> bool" where
  "inInstance cs ss s =
     (\<exists>c \<in> set cs. \<exists>d0 st et.
        s \<in> set (instanceSessions c d0 st et) \<and> set (instanceSessions c d0 st et) \<subseteq> set ss)"

text \<open>A history entry of the special course: it starts at 10, 11 or 12 o'clock.\<close>

definition specialEntry :: "HistoryEntry \<Rightarrow> bool" where
  "specialEntry e =
     (10 \<le> hour (startTime_h e) \<and> hour (startTime_h e) < 13 \<and> minute (startTime_h e) = 0)"

definition entryStart :: "HistoryEntry \<Rightarrow> Date \<times> TimeOfDay" where
  "entryStart e = (startDate e, startTime_h e)"

text \<open>
  The course history and the session list agree: the history of a title lists the
  starts of its instances in the order of booking, with the weekday of the start; the
  special course has at most one entry, every other entry is separated from the entry
  before it.
\<close>

definition historyOk :: "History \<Rightarrow> ScheduledSession list \<Rightarrow> bool" where
  "historyOk h ss =
     (\<forall>t. instanceStarts t ss = map entryStart (historyOf h t)
          \<and> (\<forall>e \<in> set (historyOf h t). dayOfWeek_h e = DAY_NAMES ! getDay (startDate e))
          \<and> (if isFinancialIntelligenceTitle t
             then length (historyOf h t) \<le> 1 \<and> (\<forall>e \<in> set (historyOf h t). specialEntry e)
             else separated (historyOf h t)))"

text \<open>A well-formed grid in which every slot is free.\<close>

definition freshGrid :: "Grid \<Rightarrow> bool" where
  "freshGrid g = (wfGrid g \<and> (\<forall>(k, dd) \<in> set g. \<forall>sl \<in> set (slots dd). available sl))"

text \<open>The invariant of the engine state.\<close>

definition engineInv ::
  "Course list \<Rightarrow> Date list \<Rightarrow> ScheduledSession list \<Rightarrow> Grid \<Rightarrow> History \<Rightarrow> bool" where
  "engineInv cs qd ss g h =
     (consistent g ss \<and> (\<forall>s \<in> set ss. date s \<in> set qd) \<and> (\<forall>s \<in> set ss. specialOk s)
      \<and> (\<forall>s \<in> set ss. inInstance cs ss s) \<and> historyOk h ss)"

section \<open>Example inputs\<close>

definition exampleFI :: Course where
  "exampleFI = \<lparr>title = ''Financial Intelligence'', cadence = 13, sessions = 2\<rparr>"

definition exampleLeadership :: Course where
  "exampleLeadership = \<lparr>title = ''Lead'', cadence = 12, sessions = 1\<rparr>"

text \<open>The sessions of the run for \<open>exampleFI\<close> in quarter Q1 of 2025.\<close>

definition exampleSessions :: "ScheduledSession list" where
  "exampleSessions =
     [\<lparr>date = 20179, courseName = ''Financial Intelligence'', sessionNumber = 1,
       startTime = Time 10 0, endTime = Time 10 30,
       instructorFirstName = [], instructorLastName = []\<rparr>,
      \<lparr>date = 20186, courseName = ''Financial Intelligence'', sessionNumber = 2,
       startTime = Time 10 0, endTime = Time 10 30,
       instructorFirstName = [], instructorLastName = []\<rparr>]"



definition exampleZeroCadence :: Course where
  "exampleZeroCadence = \<lparr>title = ''Lead'', cadence = 0, sessions = 1\<rparr>"

(*PROPERTIES*)
section \<open>Calendar facts\<close>

lemma monthFromDay_range: "0 \<le> monthFromDay leap dwy \<and> monthFromDay leap dwy < 12"
  by (simp add: monthFromDay_def)

lemma format_fields: "format n = (getFullYear n, getMonth n + 1, getDate n)"
  by (simp add: format_def getMonth_def getDate_def Let_def)

lemma MakeDay_fields: "MakeDay (getFullYear n) (getMonth n) (getDate n) = n"
proof -
  have "0 \<le> getMonth n" "getMonth n < 12"
    using monthFromDay_range by (simp_all add: getMonth_def Let_def)
  then have "getMonth n div 12 = 0" "getMonth n mod 12 = getMonth n" by simp_all
  then show ?thesis
    by (simp add: MakeDay_def Let_def) (simp add: getDate_def getMonth_def Let_def)
qed

lemma format_inj: "format a = format b \<Longrightarrow> a = b"
proof -
  assume "format a = format b"
  then have "getFullYear a = getFullYear b" "getMonth a = getMonth b" "getDate a = getDate b"
    by (simp_all add: format_fields)
  then have "MakeDay (getFullYear a) (getMonth a) (getDate a) =
             MakeDay (getFullYear b) (getMonth b) (getDate b)" by simp
  then show ?thesis by (simp only: MakeDay_fields)
qed

lemma sameDay_eq [code]: "sameDay a b = (a = b)"
  using format_inj by (auto simp: sameDay_def)

lemma lessThanThreeHours_minutes [code]:
  "lessThanThreeHours time1 time2 =
     (\<bar>int (hour time1 * 60 + minute time1) - int (hour time2 * 60 + minute time2)\<bar> < 180)"
proof -
  have "(\<bar>rat_of_int x\<bar> / 60 < 3) = (\<bar>x\<bar> < 180)" for x :: int
  proof -
    have "(\<bar>rat_of_int x\<bar> / 60 < 3) = (\<bar>rat_of_int x\<bar> < 180)" by simp
    also have "\<dots> = (rat_of_int \<bar>x\<bar> < rat_of_int 180)" by simp
    also have "\<dots> = (\<bar>x\<bar> < 180)" by (simp only: of_int_less_iff)
    finally show ?thesis .
  qed
  then show ?thesis
    unfolding lessThanThreeHours_def getTimeDifferenceInHours_def Let_def by blast
qed

section \<open>Calendar arithmetic\<close>

lemma TimeClip_Some: "(TimeClip n = Some m) = (m = n \<and> \<bar>n\<bar> \<le> 100000000)"
  by (auto simp: TimeClip_def validTime_def)

lemma TimeClip_None: "(TimeClip n = None) = (\<not> \<bar>n\<bar> \<le> 100000000)"
  by (auto simp: TimeClip_def validTime_def)

lemma TimeClip_valid: "\<bar>n\<bar> \<le> 100000000 \<Longrightarrow> TimeClip n = Some n"
  by (simp add: TimeClip_Some)

lemma div_succ:
  fixes x :: int
  assumes "0 < k"
  shows "(x + 1) div k = x div k + (if (x + 1) mod k = 0 then 1 else 0)"
proof -
  define q where "q = x div k"
  define r where "r = x mod k"
  have x: "x = q * k + r" and r: "0 \<le> r" "r < k"
    using assms by (simp_all add: q_def r_def)
  show ?thesis
  proof (cases "r + 1 = k")
    case True
    then have "x + 1 = (q + 1) * k" using x by (simp add: algebra_simps)
    then show ?thesis using assms by (simp add: q_def)
  next
    case False
    then have lt: "r + 1 < k" using r by simp
    have e: "x + 1 = (r + 1) + q * k" using x by simp
    have "(r + 1) div k = 0" "(r + 1) mod k = r + 1"
      using lt r by (simp_all add: div_pos_pos_trivial mod_pos_pos_trivial)
    then have "(x + 1) div k = q" "(x + 1) mod k = r + 1"
      unfolding e using assms by (simp_all only: div_mult_self1 mod_mult_self1)
    then show ?thesis using r by (simp add: q_def)
  qed
qed

lemma DayFromYear_succ:
  "DayFromYear (y + 1) = DayFromYear y + (if InLeapYear y then 366 else 365)"
proof -
  define a where "a = (if y mod 4 = 0 then 1 else 0 :: int)"
  define b where "b = (if y mod 100 = 0 then 1 else 0 :: int)"
  define c where "c = (if y mod 400 = 0 then 1 else 0 :: int)"
  have a: "(y + 1 - 1969) div 4 = (y - 1969) div 4 + a"
  proof -
    have "y - 1969 + 1 = y + (- 492) * 4" by simp
    then have "(y - 1969 + 1) mod 4 = y mod 4" by (simp only: mod_mult_self1)
    moreover have "y + 1 - 1969 = y - 1969 + 1" by simp
    ultimately show ?thesis using div_succ [of 4 "y - 1969"] by (simp only: a_def)
  qed
  have b: "(y + 1 - 1901) div 100 = (y - 1901) div 100 + b"
  proof -
    have "y - 1901 + 1 = y + (- 19) * 100" by simp
    then have "(y - 1901 + 1) mod 100 = y mod 100" by (simp only: mod_mult_self1)
    moreover have "y + 1 - 1901 = y - 1901 + 1" by simp
    ultimately show ?thesis using div_succ [of 100 "y - 1901"] by (simp only: b_def)
  qed
  have c: "(y + 1 - 1601) div 400 = (y - 1601) div 400 + c"
  proof -
    have "y - 1601 + 1 = y + (- 4) * 400" by simp
    then have "(y - 1601 + 1) mod 400 = y mod 400" by (simp only: mod_mult_self1)
    moreover have "y + 1 - 1601 = y - 1601 + 1" by simp
    ultimately show ?thesis using div_succ [of 400 "y - 1601"] by (simp only: c_def)
  qed
  have d400: "y mod 400 = 0 \<Longrightarrow> y mod 100 = 0"
  proof -
    assume "y mod 400 = 0"
    moreover have "y mod 400 mod 100 = y mod 100" by (rule mod_mod_cancel) simp
    ultimately show ?thesis by simp
  qed
  have d100: "y mod 100 = 0 \<Longrightarrow> y mod 4 = 0"
  proof -
    assume "y mod 100 = 0"
    moreover have "y mod 100 mod 4 = y mod 4" by (rule mod_mod_cancel) simp
    ultimately show ?thesis by simp
  qed
  have leap: "(if InLeapYear y then 366 else 365) = 365 + a - b + c"
  proof (cases "y mod 4 = 0")
    case False
    have h: "y mod 100 \<noteq> 0"
    proof
      assume "y mod 100 = 0"
      from d100 [OF this] False show False by simp
    qed
    have "y mod 400 \<noteq> 0"
    proof
      assume "y mod 400 = 0"
      from d400 [OF this] h show False by simp
    qed
    note h this
    with False show ?thesis by (simp add: InLeapYear_def a_def b_def c_def)
  next
    case True
    show ?thesis
    proof (cases "y mod 100 = 0")
      case False
      have "y mod 400 \<noteq> 0"
      proof
        assume "y mod 400 = 0"
        from d400 [OF this] False show False by simp
      qed
      with False True show ?thesis by (simp add: InLeapYear_def a_def b_def c_def)
    next
      case h: True
      with True show ?thesis by (simp add: InLeapYear_def a_def b_def c_def)
    qed
  qed
  have "DayFromYear (y + 1) = DayFromYear y + (365 + a - b + c)"
    unfolding DayFromYear_def a b c by simp
  then show ?thesis by (simp only: leap)
qed

lemma DayFromYear_bounds:
  "146097 * (y - 1970) - 506 \<le> 400 * DayFromYear y"
  "400 * DayFromYear y \<le> 146097 * (y - 1970) + 589"
proof -
  define t where "t = y - 1970"
  define a where "a = (y - 1969) div 4"
  define b where "b = (y - 1901) div 100"
  define c where "c = (y - 1601) div 400"
  define ra where "ra = (y - 1969) mod 4"
  define rb where "rb = (y - 1901) mod 100"
  define rc where "rc = (y - 1601) mod 400"
  have ea: "t + 1 = 4 * a + ra" by (simp add: a_def ra_def t_def)
  have eb: "t + 69 = 100 * b + rb" by (simp add: b_def rb_def t_def)
  have ec: "t + 369 = 400 * c + rc" by (simp add: c_def rc_def t_def)
  have r: "0 \<le> ra" "ra < 4" "0 \<le> rb" "rb < 100" "0 \<le> rc" "rc < 400"
    by (simp_all add: ra_def rb_def rc_def)
  have d: "DayFromYear y = 365 * t + a - b + c"
    by (simp add: DayFromYear_def a_def b_def c_def t_def)
  have a: "400 * a = 100 * t + 100 - 100 * ra" using ea by simp
  have b: "400 * b = 4 * t + 276 - 4 * rb" using eb by simp
  have c: "400 * c = t + 369 - rc" using ec by simp
  have "400 * (365 * t + a - b + c) = 146000 * t + 400 * a - 400 * b + 400 * c"
    by (simp add: algebra_simps)
  also have "\<dots> = 146097 * t + 193 - 100 * ra + 4 * rb - rc"
    unfolding a b c by simp
  finally have e: "400 * DayFromYear y = 146097 * t + 193 - 100 * ra + 4 * rb - rc"
    unfolding d .
  show "146097 * (y - 1970) - 506 \<le> 400 * DayFromYear y"
    unfolding e t_def [symmetric] using r by simp
  show "400 * DayFromYear y \<le> 146097 * (y - 1970) + 589"
    unfolding e t_def [symmetric] using r by simp
qed

lemma DayFromYear_less: "DayFromYear y < DayFromYear (y + 1)"
  by (simp add: DayFromYear_succ)

lemma getFullYear_unique:
  assumes lo: "DayFromYear y \<le> n" and hi: "n < DayFromYear (y + 1)"
  shows "getFullYear n = y"
proof -
  define q where "q = (400 * n) div 146097"
  define r where "r = (400 * n) mod 146097"
  have e: "400 * n = 146097 * q + r" by (simp add: q_def r_def)
  have r: "0 \<le> r" "r < 146097" by (simp_all add: r_def)
  have l: "y - 1971 \<le> q"
  proof (rule ccontr)
    assume "\<not> y - 1971 \<le> q"
    then have "q \<le> y - 1972" by simp
    then have "146097 * q \<le> 146097 * (y - 1972)" by simp
    with DayFromYear_bounds(1) [of y] lo e r show False by simp
  qed
  have u: "q \<le> y - 1969"
  proof (rule ccontr)
    assume "\<not> q \<le> y - 1969"
    then have "y - 1968 \<le> q" by simp
    then have "146097 * (y - 1968) \<le> 146097 * q" by simp
    with DayFromYear_bounds(2) [of "y + 1"] hi e r show False by simp
  qed
  define y0 where "y0 = 1970 + q"
  have g: "getFullYear n =
     (if n < DayFromYear y0 then y0 - 1
      else if DayFromYear (y0 + 1) \<le> n then y0 + 1 else y0)"
    by (simp add: getFullYear_def Let_def y0_def q_def)
  from l u have "y0 = y - 1 \<or> y0 = y \<or> y0 = y + 1" by (auto simp: y0_def)
  then show ?thesis
  proof (elim disjE)
    assume a: "y0 = y - 1"
    have "DayFromYear (y - 1) < DayFromYear y" using DayFromYear_less [of "y - 1"] by simp
    with lo have "\<not> n < DayFromYear (y - 1)" by simp
    with lo show ?thesis unfolding g a by simp
  next
    assume a: "y0 = y"
    with lo hi show ?thesis unfolding g by simp
  next
    assume a: "y0 = y + 1"
    with hi show ?thesis unfolding g by simp
  qed
qed

lemma monthStart_range:
  "0 \<le> m \<Longrightarrow> m \<le> 12 \<Longrightarrow> 0 \<le> monthStart l m \<and> monthStart l m \<le> 366"
  by (simp add: monthStart_def Let_def)

lemma monthStart_mono:
  "0 \<le> m \<Longrightarrow> m < 12 \<Longrightarrow> monthStart l m + 28 \<le> monthStart l (m + 1)"
proof -
  assume "0 \<le> m" "m < 12"
  then have "m = 0 \<or> m = 1 \<or> m = 2 \<or> m = 3 \<or> m = 4 \<or> m = 5 \<or> m = 6 \<or> m = 7 \<or> m = 8
      \<or> m = 9 \<or> m = 10 \<or> m = 11" by arith
  then show ?thesis by (elim disjE) (simp_all add: monthStart_def Let_def)
qed

lemma monthStart_12: "monthStart l 12 = (if l then 366 else 365)"
  by (simp add: monthStart_def Let_def)

lemma monthFromDay_monthStart:
  assumes m: "0 \<le> m" "m < 12" and k: "0 \<le> k" "monthStart l m + k < monthStart l (m + 1)"
  shows "monthFromDay l (monthStart l m + k) = m"
proof -
  from m have "m = 0 \<or> m = 1 \<or> m = 2 \<or> m = 3 \<or> m = 4 \<or> m = 5 \<or> m = 6 \<or> m = 7 \<or> m = 8
      \<or> m = 9 \<or> m = 10 \<or> m = 11" by arith
  then show ?thesis using k
    by (elim disjE) (simp_all add: monthStart_def monthFromDay_def Let_def)
qed

text \<open>The calendar fields of a day made from a year, a month and a day of the month.\<close>

lemma MakeDay_in_year:
  assumes m: "0 \<le> m" "m < 12" and d: "1 \<le> d"
    "monthStart (InLeapYear y) m + d - 1 < monthStart (InLeapYear y) (m + 1)"
  shows "MakeDay y m d = DayFromYear y + monthStart (InLeapYear y) m + d - 1"
    and "getFullYear (MakeDay y m d) = y"
    and "getMonth (MakeDay y m d) = m"
    and "getDate (MakeDay y m d) = d"
proof -
  have dm: "m div 12 = 0" "m mod 12 = m" using m by simp_all
  show e: "MakeDay y m d = DayFromYear y + monthStart (InLeapYear y) m + d - 1"
    by (simp add: MakeDay_def Let_def dm)
  have le12: "monthStart (InLeapYear y) (m + 1) \<le> monthStart (InLeapYear y) 12"
  proof -
    from m have "m = 0 \<or> m = 1 \<or> m = 2 \<or> m = 3 \<or> m = 4 \<or> m = 5 \<or> m = 6 \<or> m = 7 \<or> m = 8
      \<or> m = 9 \<or> m = 10 \<or> m = 11" by arith
    then show ?thesis by (elim disjE) (simp_all add: monthStart_def Let_def)
  qed
  have ms: "0 \<le> monthStart (InLeapYear y) m" using monthStart_range [of m] m by simp
  have y: "getFullYear (MakeDay y m d) = y"
  proof (rule getFullYear_unique)
    show "DayFromYear y \<le> MakeDay y m d" unfolding e using ms d by simp
    show "MakeDay y m d < DayFromYear (y + 1)"
      unfolding e DayFromYear_succ using d le12 by (simp add: monthStart_12 split: if_splits)
  qed
  then show "getFullYear (MakeDay y m d) = y" .
  have dw: "MakeDay y m d - DayFromYear y = monthStart (InLeapYear y) m + (d - 1)"
    unfolding e by simp
  have mf: "monthFromDay (InLeapYear y) (monthStart (InLeapYear y) m + (d - 1)) = m"
    using m d by (intro monthFromDay_monthStart) simp_all
  show "getMonth (MakeDay y m d) = m"
    by (simp only: getMonth_def Let_def y dw mf)
  show "getDate (MakeDay y m d) = d"
    by (simp only: getDate_def Let_def y dw mf)
qed

section \<open>Valid dates\<close>

lemma DayFromYear_range:
  assumes "- 271820 \<le> y" "y \<le> 275759"
  shows "- 99999746 \<le> DayFromYear y" "DayFromYear y \<le> 99999380"
proof -
  have "146097 * (- 271820 - 1970) \<le> 146097 * (y - 1970)" using assms by simp
  with DayFromYear_bounds(1) [of y] show "- 99999746 \<le> DayFromYear y" by simp
  have "146097 * (y - 1970) \<le> 146097 * (275759 - 1970)" using assms by simp
  with DayFromYear_bounds(2) [of y] show "DayFromYear y \<le> 99999380" by simp
qed

lemma Date_new_remap: "Date_new y m d = TimeClip (MakeDay (remapYear y) m d)"
  by (simp add: Date_new_def)

lemma remapYear_range:
  "- 271820 \<le> y \<Longrightarrow> y \<le> 275759 \<Longrightarrow> - 271820 \<le> remapYear y \<and> remapYear y \<le> 275759"
  by (simp add: remapYear_def)

lemma remapYear_idem: "remapYear (remapYear y) = remapYear y"
  by (simp add: remapYear_def)

lemma MakeDay_month:
  assumes "0 \<le> m" "m < 12"
  shows "MakeDay y m d = DayFromYear y + monthStart (InLeapYear y) m + d - 1"
proof -
  have "m div 12 = 0" "m mod 12 = m" using assms by simp_all
  then show ?thesis by (simp add: MakeDay_def Let_def)
qed

lemma MakeDay_12: "MakeDay y 12 d = DayFromYear y + monthStart (InLeapYear y) 12 + d - 1"
  by (simp add: MakeDay_def Let_def DayFromYear_succ monthStart_def)

lemma MakeDay_valid:
  assumes y: "- 271820 \<le> y" "y \<le> 275759" and m: "0 \<le> m" "m \<le> 12"
    and d: "0 \<le> d" "d \<le> 31"
  shows "\<bar>MakeDay y m d\<bar> \<le> 99999999"
proof -
  have e: "MakeDay y m d = DayFromYear y + monthStart (InLeapYear y) m + d - 1"
  proof (cases "m = 12")
    case True
    then show ?thesis by (simp only: MakeDay_12)
  next
    case False
    with m show ?thesis by (intro MakeDay_month) simp_all
  qed
  from monthStart_range [of m "InLeapYear y"] m
  have "0 \<le> monthStart (InLeapYear y) m" "monthStart (InLeapYear y) m \<le> 366" by simp_all
  with DayFromYear_range [OF y] d show ?thesis unfolding e by simp
qed

lemma Date_new_valid:
  assumes "- 271820 \<le> y" "y \<le> 275759" "0 \<le> m" "m < 12" "1 \<le> d" "d \<le> 31"
  shows "Date_new y m d = Some (MakeDay (remapYear y) m d)"
proof -
  from remapYear_range [OF assms(1,2)]
  have "\<bar>MakeDay (remapYear y) m d\<bar> \<le> 99999999" using assms by (intro MakeDay_valid) simp_all
  then show ?thesis by (simp add: Date_new_remap TimeClip_Some)
qed

section \<open>The dates of a quarter\<close>

lemma datesLoop_upto:
  "\<bar>x\<bar> \<le> 100000000 \<Longrightarrow> \<bar>y\<bar> \<le> 100000000 \<Longrightarrow>
   datesLoop (Some x) (Some y) acc = acc @ [x..y]"
proof (induction "nat (y - x + 1)" arbitrary: x acc rule: less_induct)
  case less
  show ?case
  proof (cases "x \<le> y")
    case False
    then show ?thesis by (subst datesLoop.simps) (simp add: dateLe_def)
  next
    case True
    note xy = True
    show ?thesis
    proof (cases "x = y")
      case True
      have "datesLoop (addDays x 1) (Some x) (acc @ [x]) = acc @ [x]"
      proof (cases "addDays x 1")
        case None
        then show ?thesis by (subst datesLoop.simps) simp
      next
        case (Some z)
        then have "z = x + 1" by (simp add: addDays_def TimeClip_Some)
        with Some show ?thesis by (subst datesLoop.simps) (simp add: dateLe_def)
      qed
      with True show ?thesis by (subst datesLoop.simps) (simp add: dateLe_def)
    next
      case False
      with xy have lt: "x < y" by simp
      with less.prems have v: "\<bar>x + 1\<bar> \<le> 100000000" by simp
      then have a: "addDays x 1 = Some (x + 1)" by (simp add: addDays_def TimeClip_Some)
      have "nat (y - (x + 1) + 1) < nat (y - x + 1)" using lt by simp
      from less.hyps [OF this v less.prems(2)]
      have "datesLoop (Some (x + 1)) (Some y) (acc @ [x]) = (acc @ [x]) @ [x + 1..y]" .
      moreover have "[x..y] = x # [x + 1..y]" using lt by (simp add: upto_rec1)
      ultimately show ?thesis using lt a by (subst datesLoop.simps) (simp add: dateLe_def)
    qed
  qed
qed

lemma datesLoop_interval:
  assumes "\<forall>x. c = Some x \<longrightarrow> \<bar>x\<bar> \<le> 100000000" "\<forall>y. e = Some y \<longrightarrow> \<bar>y\<bar> \<le> 100000000"
  shows "\<exists>lo hi. datesLoop c e [] = [lo..hi] \<and> \<bar>hi\<bar> \<le> 100000000"
proof (cases c)
  case None
  have "datesLoop None e [] = [1..0]" by (subst datesLoop.simps) simp
  with None show ?thesis by fastforce
next
  case (Some x)
  show ?thesis
  proof (cases e)
    case None
    have "datesLoop (Some x) None [] = [1..0]" by (subst datesLoop.simps) (simp add: dateLe_def)
    with None Some show ?thesis by fastforce
  next
    case (Some y)
    with \<open>c = Some x\<close> assms datesLoop_upto [of x y "[]"] show ?thesis by auto
  qed
qed

lemma startOfMonth_valid: "startOfMonth d = Some x \<Longrightarrow> \<bar>x\<bar> \<le> 100000000"
  by (auto simp: startOfMonth_def TimeClip_Some split: option.splits)

lemma endOfMonth_valid: "endOfMonth d = Some x \<Longrightarrow> \<bar>x\<bar> \<le> 100000000"
  by (auto simp: endOfMonth_def TimeClip_Some split: option.splits if_splits)

lemma getQuarterDateRange_valid:
  assumes "getQuarterDateRange quarter year = Inr (s, e)"
  shows "(\<forall>x. s = Some x \<longrightarrow> \<bar>x\<bar> \<le> 100000000) \<and> (\<forall>y. e = Some y \<longrightarrow> \<bar>y\<bar> \<le> 100000000)"
proof -
  from assms obtain a b where "s = startOfMonth a" "e = endOfMonth b"
    by (auto simp: getQuarterDateRange_def Let_def split: option.splits if_splits)
  then show ?thesis by (auto dest: startOfMonth_valid endOfMonth_valid)
qed

lemma getWeekdaysInQuarter_shape:
  assumes "getWeekdaysInQuarter quarter year = Inr qd"
  shows "\<exists>lo hi. qd = weekdaysBetween lo hi \<and> \<bar>hi\<bar> \<le> 100000000"
proof -
  from assms obtain s e where r: "getQuarterDateRange quarter year = Inr (s, e)"
    and qd: "qd = filter (\<lambda>d. 1 \<le> getDay d \<and> getDay d \<le> 5) (datesLoop s e [])"
    by (auto simp: getWeekdaysInQuarter_def getAllDatesInQuarter_def Let_def
        split: sum.splits prod.splits)
  from getQuarterDateRange_valid [OF r] datesLoop_interval [of s e]
  obtain lo hi where "datesLoop s e [] = [lo..hi]" "\<bar>hi\<bar> \<le> 100000000" by blast
  with qd have "qd = weekdaysBetween lo hi \<and> \<bar>hi\<bar> \<le> 100000000"
    by (simp add: weekdaysBetween_def)
  then show ?thesis by (intro exI)
qed

section \<open>Weekdays\<close>

lemma getDay_lt7: "getDay d < 7"
  by (simp add: getDay_def nat_less_iff)

lemma getDay_succ: "getDay (d + 1) = (if getDay d = 6 then 0 else getDay d + 1)"
proof -
  define r where "r = (d + 4) mod 7"
  have r: "0 \<le> r" "r < 7" by (simp_all add: r_def)
  have "d + 1 + 4 = (d + 4) + 1" by simp
  then have "(d + 1 + 4) mod 7 = (r + 1) mod 7"
    unfolding r_def by (simp only: mod_add_left_eq)
  also have "\<dots> = (if r = 6 then 0 else r + 1)"
    using r by (simp add: mod_pos_pos_trivial)
  finally have "(d + 1 + 4) mod 7 = (if r = 6 then 0 else r + 1)" .
  then show ?thesis
    using r unfolding getDay_def r_def [symmetric]
    by (auto simp: nat_add_distrib nat_eq_iff)
qed

section \<open>Thanksgiving\<close>

lemma thanksgivingLoop_invalid:
  "thanksgivingLoop c dt = Some r \<Longrightarrow> \<not> (c < 4 \<and> dt = None)"
proof (rule thanksgivingLoop.raw_induct [where P = "\<lambda>c dt r. \<not> (c < 4 \<and> dt = None)"])
  fix loop :: "nat \<Rightarrow> Date option \<Rightarrow> Date option option" and c dt r
  assume ih: "\<And>c dt r. loop c dt = Some r \<Longrightarrow> \<not> (c < 4 \<and> dt = None)"
    and body: "(if c < 4
      then case dt of None \<Rightarrow> loop c None
           | Some d \<Rightarrow>
               if getDay d = 4
               then if c + 1 = 4 then Some (Some d)
                    else loop (c + 1) (addDays d 1)
               else loop c (addDays d 1)
      else Some dt) = Some r"
  show "\<not> (c < 4 \<and> dt = None)"
  proof
    assume a: "c < 4 \<and> dt = None"
    with body have "loop c None = Some r" by simp
    from ih [OF this] a show False by simp
  qed
qed

lemma thanksgivingLoop_None: "c < 4 \<Longrightarrow> thanksgivingLoop c None = None"
  using thanksgivingLoop_invalid [of c None] by (cases "thanksgivingLoop c None") auto

lemma thanksgivingLoop_closed:
  "c < 4 \<Longrightarrow> - 100000000 \<le> d \<Longrightarrow>
   d + int (daysToThursday (getDay d)) + 7 * (3 - int c) \<le> 100000000 \<Longrightarrow>
   thanksgivingLoop c (Some d) =
     Some (Some (d + int (daysToThursday (getDay d)) + 7 * (3 - int c)))"
proof (induction "(3 - c) * 7 + daysToThursday (getDay d)" arbitrary: c d rule: less_induct)
  case less
  have v: "addDays d 1 = Some (d + 1)"
    if "d + 1 \<le> 100000000" using that less.prems(2) by (simp add: addDays_def TimeClip_Some)
  show ?case
  proof (cases "getDay d = 4")
    case True
    show ?thesis
    proof (cases "c + 1 = 4")
      case t: True
      then have "c = 3" by simp
      with True show ?thesis
        by (subst thanksgivingLoop.simps) (simp add: daysToThursday_def)
    next
      case False
      with less.prems(1) have c: "c + 1 < 4" by simp
      have g: "getDay (d + 1) = 5" using True by (simp add: getDay_succ)
      have a: "addDays d 1 = Some (d + 1)"
        using less.prems(3) c True by (intro v) (simp add: daysToThursday_def)
      have "thanksgivingLoop (c + 1) (Some (d + 1)) =
            Some (Some (d + 1 + int (daysToThursday (getDay (d + 1))) + 7 * (3 - int (c + 1))))"
        using c less.prems True g
        by (intro less.hyps) (simp_all add: daysToThursday_def)
      then show ?thesis using True False less.prems(1) a g
        by (subst thanksgivingLoop.simps) (simp add: daysToThursday_def)
    qed
  next
    case False
    have lt: "getDay d < 7" by (rule getDay_lt7)
    have g: "daysToThursday (getDay (d + 1)) + 1 = daysToThursday (getDay d)"
      using False lt by (auto simp: getDay_succ daysToThursday_def)
    have pos: "0 < daysToThursday (getDay d)" using g by simp
    have a: "addDays d 1 = Some (d + 1)"
      using less.prems pos by (intro v) simp
    have "thanksgivingLoop c (Some (d + 1)) =
          Some (Some (d + 1 + int (daysToThursday (getDay (d + 1))) + 7 * (3 - int c)))"
      using less.prems g by (intro less.hyps) simp_all
    moreover have "d + 1 + int (daysToThursday (getDay (d + 1))) =
                   d + int (daysToThursday (getDay d))"
      using g by simp
    ultimately show ?thesis using False less.prems(1) a
      by (subst thanksgivingLoop.simps) simp
  qed
qed

lemma daysToThursday_le: "daysToThursday g \<le> 6"
  by (auto simp: daysToThursday_def)

lemma getThanksgivingDate_closed:
  assumes "- 271820 \<le> y" "y \<le> 275759"
  shows "getThanksgivingDate y =
     Some (Some (MakeDay (remapYear y) 10 1
                 + int (daysToThursday (getDay (MakeDay (remapYear y) 10 1))) + 21))"
proof -
  let ?n = "MakeDay (remapYear y) 10 1"
  have n: "Date_new y 10 1 = Some ?n" using assms by (intro Date_new_valid) simp_all
  have r: "- 271820 \<le> remapYear y" "remapYear y \<le> 275759"
    using remapYear_range [OF assms] by simp_all
  have m: "?n = DayFromYear (remapYear y) + monthStart (InLeapYear (remapYear y)) 10"
    by (simp add: MakeDay_month)
  have ms: "monthStart (InLeapYear (remapYear y)) 10 \<le> 305" by (simp add: monthStart_def)
  have ms0: "0 \<le> monthStart (InLeapYear (remapYear y)) 10" by (simp add: monthStart_def)
  have d6: "daysToThursday (getDay ?n) \<le> 6" by (rule daysToThursday_le)
  have "thanksgivingLoop 0 (Some ?n) =
        Some (Some (?n + int (daysToThursday (getDay ?n)) + 7 * (3 - int 0)))"
  proof (rule thanksgivingLoop_closed)
    show "(0::nat) < 4" by simp
    show "- 100000000 \<le> ?n" using DayFromYear_range(1) [OF r] ms0 unfolding m by simp
    show "?n + int (daysToThursday (getDay ?n)) + 7 * (3 - int 0) \<le> 100000000"
      using DayFromYear_range(2) [OF r] ms d6 unfolding m by simp
  qed
  then show ?thesis by (simp add: getThanksgivingDate_def n)
qed

section \<open>The slots of a date\<close>

lemma isNoSessionDate_valid:
  "\<forall>x \<in> set l. x \<noteq> None \<Longrightarrow> \<exists>b. isNoSessionDate d l = Inr b"
  by (induction l) auto

lemma findRestricted_valid:
  "\<forall>x \<in> set l. date_r x \<noteq> None \<Longrightarrow> \<exists>r. findRestricted d l = Inr r"
  by (induction l) auto

lemma getSpecialDatesForYear_valid:
  assumes "- 271820 \<le> y" "y \<le> 275759"
  shows "\<exists>sd. getSpecialDatesForYear y = Some sd
           \<and> (\<forall>x \<in> set (noSessionDates sd). x \<noteq> None)
           \<and> (\<forall>x \<in> set (restrictedDates sd). date_r x \<noteq> None)"
proof -
  have v: "\<exists>n. Date_new y m d = Some n" if "0 \<le> m" "m < 12" "1 \<le> d" "d \<le> 31" for m d
    using Date_new_valid [OF assms that] by simp
  show ?thesis
    unfolding getSpecialDatesForYear_def getThanksgivingDate_closed [OF assms]
    by (simp add: v)
qed

lemma getAvailableTimeSlots_valid:
  assumes "- 271820 \<le> getFullYear d" "getFullYear d \<le> 275759"
  shows "\<exists>sl. getAvailableTimeSlots d = Some (Inr sl)"
proof -
  from getSpecialDatesForYear_valid [OF assms] obtain sd where
    sd: "getSpecialDatesForYear (getFullYear d) = Some sd"
    and n: "\<forall>x \<in> set (noSessionDates sd). x \<noteq> None"
    and r: "\<forall>x \<in> set (restrictedDates sd). date_r x \<noteq> None" by blast
  from isNoSessionDate_valid [OF n] obtain b where
    b: "isNoSessionDate d (noSessionDates sd) = Inr b" by blast
  from findRestricted_valid [OF r] obtain x where
    x: "findRestricted d (restrictedDates sd) = Inr x" by blast
  show ?thesis
    using sd b x by (cases b; cases x) (simp_all add: getAvailableTimeSlots_def Let_def)
qed

lemma initGridLoop_valid:
  "\<forall>d \<in> set ds. \<exists>sl. getAvailableTimeSlots d = Some (Inr sl) \<Longrightarrow>
   \<exists>g'. initGridLoop ds g = Some (Inr g')"
proof (induction ds arbitrary: g)
  case Nil
  then show ?case by simp
next
  case (Cons d ds)
  from Cons.prems obtain sl where "getAvailableTimeSlots d = Some (Inr sl)" by auto
  with Cons show ?case by simp
qed

section \<open>The quarter of a year in range\<close>

lemma month_range:
  assumes y: "- 271820 \<le> y" "y \<le> 275759" and m: "0 \<le> m" "m < 12"
  shows "startOfMonth (Date_new y m 1) = Some (MakeDay (remapYear y) m 1)"
    and "endOfMonth (Date_new y m 1) = Some (MakeDay (remapYear y) (m + 1) 0)"
    and "DayFromYear (remapYear y) \<le> MakeDay (remapYear y) m 1"
    and "MakeDay (remapYear y) (m + 1) 0 < DayFromYear (remapYear y + 1)"
proof -
  let ?Y = "remapYear y"
  let ?n = "MakeDay ?Y m 1"
  have r: "- 271820 \<le> ?Y" "?Y \<le> 275759" using remapYear_range [OF y] by simp_all
  have n: "Date_new y m 1 = Some ?n" using y m by (intro Date_new_valid) simp_all
  have mono: "monthStart (InLeapYear ?Y) m + 1 - 1 < monthStart (InLeapYear ?Y) (m + 1)"
    using monthStart_mono [OF m, of "InLeapYear ?Y"] by simp
  have f: "getFullYear ?n = ?Y" "getMonth ?n = m"
    using MakeDay_in_year(2,3) [OF m _ mono] by simp_all
  have v: "\<bar>?n\<bar> \<le> 99999999" using r m by (intro MakeDay_valid) simp_all
  show "startOfMonth (Date_new y m 1) = Some ?n"
    using v by (simp add: n startOfMonth_def f TimeClip_Some)
  have h: "\<bar>MakeDay ?Y (m + 1) 0\<bar> \<le> 99999999" using r m by (intro MakeDay_valid) simp_all
  then have "validTime (MakeDay ?Y (m + 1) 0 * 86400000 + 86399999)"
    by (simp add: validTime_def)
  then show "endOfMonth (Date_new y m 1) = Some (MakeDay ?Y (m + 1) 0)"
    using h by (simp add: n endOfMonth_def f TimeClip_valid)
  have ms: "0 \<le> monthStart (InLeapYear ?Y) m" using monthStart_range [of m] m by simp
  show "DayFromYear ?Y \<le> ?n" using ms m by (simp add: MakeDay_month)
  have e: "MakeDay ?Y (m + 1) 0 = DayFromYear ?Y + monthStart (InLeapYear ?Y) (m + 1) - 1"
  proof (cases "m + 1 = 12")
    case True
    then show ?thesis by (simp add: MakeDay_12)
  next
    case False
    with m show ?thesis by (simp add: MakeDay_month)
  qed
  have "monthStart (InLeapYear ?Y) (m + 1) \<le> (if InLeapYear ?Y then 366 else 365)"
  proof -
    from m have "m = 0 \<or> m = 1 \<or> m = 2 \<or> m = 3 \<or> m = 4 \<or> m = 5 \<or> m = 6 \<or> m = 7 \<or> m = 8
      \<or> m = 9 \<or> m = 10 \<or> m = 11" by arith
    then show ?thesis by (elim disjE) (simp_all add: monthStart_def Let_def)
  qed
  then show "MakeDay ?Y (m + 1) 0 < DayFromYear (?Y + 1)"
    unfolding e DayFromYear_succ by (simp split: if_splits)
qed

lemma weekdays_year:
  assumes "DayFromYear Y \<le> lo" "hi < DayFromYear (Y + 1)" "d \<in> set (weekdaysBetween lo hi)"
  shows "getFullYear d = Y"
proof -
  from assms(3) have "lo \<le> d" "d \<le> hi" by (simp_all add: weekdaysBetween_def)
  with assms(1,2) show ?thesis by (intro getFullYear_unique) simp_all
qed

lemma getWeekdaysInQuarter_months:
  assumes y: "- 271820 \<le> y" "y \<le> 275759" and m: "0 \<le> m" "m \<le> m'" "m' < 12"
  shows "filter (\<lambda>date. let day = getDay date in 1 \<le> day \<and> day \<le> 5)
           (datesLoop (startOfMonth (Date_new y m 1)) (endOfMonth (Date_new y m' 1)) []) =
         weekdaysBetween (MakeDay (remapYear y) m 1) (MakeDay (remapYear y) (m' + 1) 0)"
    and "\<forall>d \<in> set (weekdaysBetween (MakeDay (remapYear y) m 1)
                     (MakeDay (remapYear y) (m' + 1) 0)). getFullYear d = remapYear y"
proof -
  have m1: "m < 12" "0 \<le> m'" using m by simp_all
  note a = month_range [OF y m(1) m1(1)]
  note b = month_range [OF y m1(2) m(3)]
  have r: "- 271820 \<le> remapYear y" "remapYear y \<le> 275759"
    using remapYear_range [OF y] by simp_all
  have v1: "\<bar>MakeDay (remapYear y) m 1\<bar> \<le> 100000000"
    using MakeDay_valid [OF r, of m 1] m by simp
  have v2: "\<bar>MakeDay (remapYear y) (m' + 1) 0\<bar> \<le> 100000000"
    using MakeDay_valid [OF r, of "m' + 1" 0] m by simp
  show "filter (\<lambda>date. let day = getDay date in 1 \<le> day \<and> day \<le> 5)
           (datesLoop (startOfMonth (Date_new y m 1)) (endOfMonth (Date_new y m' 1)) []) =
         weekdaysBetween (MakeDay (remapYear y) m 1) (MakeDay (remapYear y) (m' + 1) 0)"
    by (simp add: a(1) b(2) datesLoop_upto [OF v1 v2] weekdaysBetween_def Let_def)
  show "\<forall>d \<in> set (weekdaysBetween (MakeDay (remapYear y) m 1)
                     (MakeDay (remapYear y) (m' + 1) 0)). getFullYear d = remapYear y"
    using weekdays_year [OF a(3) b(4)] by blast
qed

lemma getWeekdaysInQuarter_inRange:
  assumes q: "quarter \<in> {''Q1'', ''Q2'', ''Q3'', ''Q4''}" and y: "yearInRange year"
  shows "\<exists>qd. getWeekdaysInQuarter quarter year = Inr qd
            \<and> (\<forall>d \<in> set qd. - 271820 \<le> getFullYear d \<and> getFullYear d \<le> 275759)"
proof -
  have y0: "- 271820 \<le> year" "year \<le> 275759" using y by (simp_all add: yearInRange_def)
  have y1: "- 271820 \<le> year + 1" "year + 1 \<le> 275759" using y by (simp_all add: yearInRange_def)
  note r0 = remapYear_range [OF y0]
  note r1 = remapYear_range [OF y1]
  from q consider "quarter = ''Q1''" | "quarter = ''Q2''" | "quarter = ''Q3''"
    | "quarter = ''Q4''" by auto
  then show ?thesis
  proof cases
    case 1
    have e: "getWeekdaysInQuarter ''Q1'' year =
        Inr (weekdaysBetween (MakeDay (remapYear year) 3 1) (MakeDay (remapYear year) (5 + 1) 0))"
      using getWeekdaysInQuarter_months(1) [OF y0, of 3 5]
      by (simp add: getWeekdaysInQuarter_def getAllDatesInQuarter_def getQuarterDateRange_def
          QUARTERS_def Let_def)
    show ?thesis unfolding 1 e using getWeekdaysInQuarter_months(2) [OF y0, of 3 5] r0 by simp
  next
    case 2
    have e: "getWeekdaysInQuarter ''Q2'' year =
        Inr (weekdaysBetween (MakeDay (remapYear year) 6 1) (MakeDay (remapYear year) (8 + 1) 0))"
      using getWeekdaysInQuarter_months(1) [OF y0, of 6 8]
      by (simp add: getWeekdaysInQuarter_def getAllDatesInQuarter_def getQuarterDateRange_def
          QUARTERS_def Let_def)
    show ?thesis unfolding 2 e using getWeekdaysInQuarter_months(2) [OF y0, of 6 8] r0 by simp
  next
    case 3
    have e: "getWeekdaysInQuarter ''Q3'' year =
        Inr (weekdaysBetween (MakeDay (remapYear year) 9 1) (MakeDay (remapYear year) (11 + 1) 0))"
      using getWeekdaysInQuarter_months(1) [OF y0, of 9 11]
      by (simp add: getWeekdaysInQuarter_def getAllDatesInQuarter_def getQuarterDateRange_def
          QUARTERS_def Let_def)
    show ?thesis unfolding 3 e using getWeekdaysInQuarter_months(2) [OF y0, of 9 11] r0 by simp
  next
    case 4
    have e: "getWeekdaysInQuarter ''Q4'' year =
        Inr (weekdaysBetween (MakeDay (remapYear (year + 1)) 0 1)
               (MakeDay (remapYear (year + 1)) (2 + 1) 0))"
      using getWeekdaysInQuarter_months(1) [OF y1, of 0 2]
      by (simp add: getWeekdaysInQuarter_def getAllDatesInQuarter_def getQuarterDateRange_def
          QUARTERS_def Let_def)
    show ?thesis unfolding 4 e using getWeekdaysInQuarter_months(2) [OF y1, of 0 2] r1 by simp
  qed
qed

lemma initializeAvailabilityGrid_inRange:
  assumes "\<forall>d \<in> set qd. - 271820 \<le> getFullYear d \<and> getFullYear d \<le> 275759"
  shows "\<exists>g. initializeAvailabilityGrid qd = Some (Inr g)"
  unfolding initializeAvailabilityGrid_def
  using assms by (intro initGridLoop_valid) (simp add: getAvailableTimeSlots_valid)

section \<open>Termination and errors of a run\<close>

lemma cadenceLoop_terminates:
  assumes w: "0 < w"
  shows "\<exists>r. cadenceLoop w fyEnd qd cur acc = Some r"
proof (induction "case cur of None \<Rightarrow> 0
         | Some c \<Rightarrow> (case fyEnd of None \<Rightarrow> 0 | Some f \<Rightarrow> nat (f - c + 2))"
       arbitrary: cur acc rule: less_induct)
  case less
  show ?case
  proof (cases cur)
    case None
    then show ?thesis by (subst cadenceLoop.simps) simp
  next
    case (Some c)
    show ?thesis
    proof (cases "dateLe (Some c) fyEnd")
      case False
      with Some show ?thesis by (subst cadenceLoop.simps) simp
    next
      case True
      then obtain f where f: "fyEnd = Some f" "c \<le> f"
        by (auto simp: dateLe_def split: option.splits)
      have "(case addWeeks c w of None \<Rightarrow> 0
             | Some c' \<Rightarrow> (case fyEnd of None \<Rightarrow> 0 | Some f \<Rightarrow> nat (f - c' + 2)))
            < (case cur of None \<Rightarrow> 0
               | Some c \<Rightarrow> (case fyEnd of None \<Rightarrow> 0 | Some f \<Rightarrow> nat (f - c + 2)))"
        using f w Some
        by (auto simp: addWeeks_def addDays_def TimeClip_def split: option.splits)
      from less [OF this] Some True show ?thesis
        by (subst cadenceLoop.simps) simp
    qed
  qed
qed

lemma cadenceLoop_zero_step:
  "cadenceLoop w fe qd cur acc = Some r \<Longrightarrow>
   \<not> (w = 0 \<and> (\<exists>c. cur = Some c \<and> \<bar>c\<bar> \<le> 100000000 \<and> dateLe (Some c) fe))"
proof (rule cadenceLoop.raw_induct [where P = "\<lambda>w fe qd cur acc r.
         \<not> (w = 0 \<and> (\<exists>c. cur = Some c \<and> \<bar>c\<bar> \<le> 100000000 \<and> dateLe (Some c) fe))"])
  fix loop :: "int \<Rightarrow> Date option \<Rightarrow> Date list \<Rightarrow> Date option \<Rightarrow> Date list \<Rightarrow> Date list option"
    and w fe qd cur acc r
  assume ih: "\<And>w fe qd cur acc r. loop w fe qd cur acc = Some r \<Longrightarrow>
      \<not> (w = 0 \<and> (\<exists>c. cur = Some c \<and> \<bar>c\<bar> \<le> 100000000 \<and> dateLe (Some c) fe))"
    and body: "(case cur of None \<Rightarrow> Some acc
      | Some c \<Rightarrow>
          if dateLe (Some c) fe
          then loop w fe qd (addWeeks c w)
                (if qd \<noteq> [] \<and> c \<le> last qd then acc @ [c] else acc)
          else Some acc) = Some r"
  show "\<not> (w = 0 \<and> (\<exists>c. cur = Some c \<and> \<bar>c\<bar> \<le> 100000000 \<and> dateLe (Some c) fe))"
  proof
    assume a: "w = 0 \<and> (\<exists>c. cur = Some c \<and> \<bar>c\<bar> \<le> 100000000 \<and> dateLe (Some c) fe)"
    then obtain c where c: "cur = Some c" "\<bar>c\<bar> \<le> 100000000" "dateLe (Some c) fe" by blast
    have "addWeeks c 0 = Some c" using c(2) by (simp add: addWeeks_def addDays_def TimeClip_Some)
    with body c a have
      "loop 0 fe qd (Some c) (if qd \<noteq> [] \<and> c \<le> last qd then acc @ [c] else acc) = Some r"
      by simp
    from ih [OF this] c show False by simp
  qed
qed (assumption)

lemma cadenceLoop_zero:
  "\<bar>c\<bar> \<le> 100000000 \<Longrightarrow> dateLe (Some c) fe \<Longrightarrow> cadenceLoop 0 fe qd (Some c) acc = None"
  using cadenceLoop_zero_step [of 0 fe qd "Some c" acc]
  by (cases "cadenceLoop 0 fe qd (Some c) acc") auto

lemma scheduleCourse_completes:
  assumes "0 < cadence c"
  shows "\<exists>st. scheduleCourse c fys qd g h = Some st"
proof -
  have "\<exists>r. cadenceLoop (int (cadence c)) fyEnd qd cur acc = Some r" for fyEnd cur acc
    using cadenceLoop_terminates [of "int (cadence c)"] assms by simp
  then obtain r where "calculateCadenceStartDates c fys qd = Some r"
    unfolding calculateCadenceStartDates_def Let_def by blast
  then show ?thesis by (simp add: scheduleCourse_def del: split_paired_Ex)
qed

lemma scheduleCourses_completes:
  "\<forall>c \<in> set courses. 0 < cadence c \<Longrightarrow> \<exists>st'. scheduleCourses courses fys qd st = Some st'"
proof (induction courses arbitrary: st)
  case Nil
  then show ?case by (simp del: split_paired_Ex)
next
  case (Cons c courses)
  obtain ss g h where st: "st = (ss, g, h)" using prod_cases3 by blast
  from Cons.prems obtain st1 where "scheduleCourse c fys qd g h = Some st1"
    using scheduleCourse_completes [of c fys qd g h] by auto
  moreover obtain ss1 g1 h1 where "st1 = (ss1, g1, h1)" using prod_cases3 by blast
  ultimately show ?case using Cons.IH [of "(ss @ ss1, g1, h1)"] Cons.prems st
    by (simp del: split_paired_Ex)
qed

lemma QUARTERS_lookup:
  "(map_of QUARTERS quarter = None) = (quarter \<notin> {''Q1'', ''Q2'', ''Q3'', ''Q4''})"
  by (simp add: QUARTERS_def)

lemma getWeekdaysInQuarter_Inl:
  "map_of QUARTERS quarter = None \<Longrightarrow>
   getWeekdaysInQuarter quarter year =
     Inl (if quarter \<in> set objectPrototypeProperties then TypeError
          else InvalidQuarter quarter)"
  by (simp add: getWeekdaysInQuarter_def getAllDatesInQuarter_def getQuarterDateRange_def)

lemma runEngine_Inl:
  "getWeekdaysInQuarter quarter year = Inl e \<Longrightarrow> runEngine courses quarter year = Some (Inl e)"
  by (simp add: runEngine_def)

lemma runEngine_Inr:
  "getWeekdaysInQuarter quarter year = Inr qd \<Longrightarrow>
   initializeAvailabilityGrid qd = Some (Inr g0) \<Longrightarrow>
   runEngine courses quarter year =
     (case scheduleCourses courses (getFinancialYearStart year) qd ([], g0, Map.empty) of
        None \<Rightarrow> None
      | Some (ss, g, h) \<Rightarrow> Some (Inr (sortSessions ss, g, h)))"
  by (simp add: runEngine_def Let_def)

lemma runEngine_result:
  assumes "runEngine courses quarter year = Some (Inr (ss, g, h))"
  shows "\<exists>qd g0 ss0. getWeekdaysInQuarter quarter year = Inr qd
           \<and> initializeAvailabilityGrid qd = Some (Inr g0)
           \<and> scheduleCourses courses (getFinancialYearStart year) qd ([], g0, Map.empty)
               = Some (ss0, g, h)
           \<and> ss = sortSessions ss0"
  using assms
  by (auto simp: runEngine_def Let_def split: sum.splits option.splits)

lemma generateSchedule_Inl:
  "generateSchedule courses quarter year = Some (Inl e) \<longleftrightarrow>
   runEngine courses quarter year = Some (Inl e)"
  by (simp add: generateSchedule_def split: option.splits sum.splits prod.splits)

lemma generateSchedule_None:
  "generateSchedule courses quarter year = None \<longleftrightarrow> runEngine courses quarter year = None"
  by (simp add: generateSchedule_def split: option.splits sum.splits prod.splits)

lemma generateSchedule_Inr:
  "runEngine courses quarter year = Some (Inr (ss, g, h)) \<Longrightarrow>
   generateSchedule courses quarter year =
     Some (Inr \<lparr>scheduledSessions = ss, statistics = calculateStatistics g ss\<rparr>)"
  by (simp add: generateSchedule_def)

lemma runEngine_completes:
  assumes q: "quarter \<in> {''Q1'', ''Q2'', ''Q3'', ''Q4''}" and y: "yearInRange year"
    and c: "\<forall>c \<in> set courses. 0 < cadence c"
  shows "\<exists>ss g h. runEngine courses quarter year = Some (Inr (ss, g, h))"
proof -
  from getWeekdaysInQuarter_inRange [OF q y] obtain qd where
    qd: "getWeekdaysInQuarter quarter year = Inr qd"
    and r: "\<forall>d \<in> set qd. - 271820 \<le> getFullYear d \<and> getFullYear d \<le> 275759" by blast
  from initializeAvailabilityGrid_inRange [OF r] obtain g0 where
    g0: "initializeAvailabilityGrid qd = Some (Inr g0)" by blast
  from scheduleCourses_completes [OF c] obtain st where
    st: "scheduleCourses courses (getFinancialYearStart year) qd ([], g0, Map.empty) = Some st"
    by blast
  obtain ss g h where "st = (ss, g, h)" using prod_cases3 by blast
  with st runEngine_Inr [OF qd g0, of courses]
  have "runEngine courses quarter year = Some (Inr (sortSessions ss, g, h))" by simp
  then show ?thesis by blast
qed

lemma getAvailableTimeSlots_diverges:
  assumes "DAY_NAMES ! getDay d \<noteq> ''SUNDAY''" "DAY_NAMES ! getDay d \<noteq> ''SATURDAY''"
    and "Date_new (getFullYear d) 10 1 = None"
  shows "getAvailableTimeSlots d = None"
  using assms
  by (simp add: getAvailableTimeSlots_def Let_def getSpecialDatesForYear_def
      getThanksgivingDate_def thanksgivingLoop_None)

lemma first_weekday_275760:
  "map_sum id (take 1) (getWeekdaysInQuarter ''Q1'' 275760) = Inr [99999835]"
  by code_simp

lemma day_99999835:
  "DAY_NAMES ! getDay 99999835 \<noteq> ''SUNDAY'' \<and> DAY_NAMES ! getDay 99999835 \<noteq> ''SATURDAY''
   \<and> Date_new (getFullYear 99999835) 10 1 = None"
  by code_simp

lemma runEngine_275760: "runEngine courses ''Q1'' 275760 = None"
proof -
  from first_weekday_275760 obtain qd where
    qd: "getWeekdaysInQuarter ''Q1'' 275760 = Inr qd" and t: "take 1 qd = [99999835]"
    by (cases "getWeekdaysInQuarter ''Q1'' 275760") auto
  from t obtain rest where r: "qd = 99999835 # rest" by (cases qd) auto
  have "getAvailableTimeSlots 99999835 = None"
    using day_99999835 by (intro getAvailableTimeSlots_diverges) simp_all
  then have "initializeAvailabilityGrid qd = None"
    by (simp add: initializeAvailabilityGrid_def r)
  then show ?thesis by (simp add: runEngine_def qd)
qed

lemma cadence_start_2025:
  "getFinancialYearStart 2025 = Some 20179 \<and> skipWeekend (Some 20179) = Some 20179
   \<and> Option.bind (Option.bind (Option.bind (Some 20179)
        (\<lambda>d. setFullYear d (getFullYear d + 1))) (\<lambda>d. setMonth d 2)) (\<lambda>d. setDate d 31)
      = Some 20543"
  by code_simp

lemma scheduleCourse_zero_2025:
  "scheduleCourse exampleZeroCadence (getFinancialYearStart 2025) qd g h = None"
proof -
  have "cadenceLoop 0 (Some 20543) qd (Some 20179) [] = None"
    by (rule cadenceLoop_zero) (simp_all add: dateLe_def)
  then show ?thesis
    using cadence_start_2025
    by (simp add: scheduleCourse_def calculateCadenceStartDates_def Let_def
        exampleZeroCadence_def)
qed

lemma runEngine_zero_2025: "runEngine [exampleZeroCadence] ''Q1'' 2025 = None"
proof -
  have "yearInRange 2025" by (simp add: yearInRange_def)
  from getWeekdaysInQuarter_inRange [OF _ this, of "''Q1''"] obtain qd where
    qd: "getWeekdaysInQuarter ''Q1'' 2025 = Inr qd"
    and r: "\<forall>d \<in> set qd. - 271820 \<le> getFullYear d \<and> getFullYear d \<le> 275759" by auto
  from initializeAvailabilityGrid_inRange [OF r] obtain g0 where
    g0: "initializeAvailabilityGrid qd = Some (Inr g0)" by blast
  show ?thesis
    by (simp add: runEngine_Inr [OF qd g0] scheduleCourse_zero_2025)
qed

text \<open>
  Claim C6, as it is stated, fails: with a recognised quarter the run throws a
  \<^verbatim>\<open>RangeError\<close> while the grid is initialised (quarter Q2 of the year -271821, whose
  1 January is not a valid date), it never returns for quarter Q1 of the year 275760
  (the Thanksgiving loop runs on the Invalid Date), and it never returns for a course
  of cadence 0.
\<close>

theorem generateSchedule_raises_iff_counterexample:
  "''Q2'' \<in> {''Q1'', ''Q2'', ''Q3'', ''Q4''}
   \<and> generateSchedule [exampleFI] ''Q2'' (- 271821) = Some (Inl RangeError)
   \<and> generateSchedule [exampleFI] ''Q1'' 275760 = None
   \<and> generateSchedule [exampleZeroCadence] ''Q1'' 2025 = None"
proof -
  have "generateSchedule [exampleFI] ''Q2'' (- 271821) = Some (Inl RangeError)"
    by code_simp
  then show ?thesis
    by (simp add: generateSchedule_None runEngine_275760 runEngine_zero_2025)
qed

text \<open>
  Claim C6, amended. For every year and every course list, a quarter identifier other
  than Q1, Q2, Q3, Q4 makes \<^verbatim>\<open>getWeekdaysInQuarter\<close> throw, before the grid is
  initialised, and \<^verbatim>\<open>generateSchedule\<close> throws that error: the \<^verbatim>\<open>Error\<close> for an invalid
  quarter, or a \<^verbatim>\<open>TypeError\<close> when the identifier names a property inherited from
  \<^verbatim>\<open>Object.prototype\<close>. For a year from -271820 to 275758 and courses of cadence at
  least 1, \<^verbatim>\<open>generateSchedule\<close> throws exactly when the quarter identifier is not one
  of the four, and returns a result when it is.
\<close>

theorem generateSchedule_raises_iff:
  "(quarter \<notin> {''Q1'', ''Q2'', ''Q3'', ''Q4''} \<longrightarrow>
      getWeekdaysInQuarter quarter year =
        Inl (if quarter \<in> set objectPrototypeProperties then TypeError
             else InvalidQuarter quarter)
      \<and> generateSchedule courses quarter year =
        Some (Inl (if quarter \<in> set objectPrototypeProperties then TypeError
                   else InvalidQuarter quarter)))
   \<and> (yearInRange year \<and> (\<forall>c \<in> set courses. 0 < cadence c) \<longrightarrow>
        ((\<exists>e. generateSchedule courses quarter year = Some (Inl e))
           \<longleftrightarrow> quarter \<notin> {''Q1'', ''Q2'', ''Q3'', ''Q4''})
        \<and> (quarter \<in> {''Q1'', ''Q2'', ''Q3'', ''Q4''} \<longrightarrow>
             (\<exists>r. generateSchedule courses quarter year = Some (Inr r))))"
proof -
  define S where "S = {''Q1'', ''Q2'', ''Q3'', ''Q4''}"
  define err where "err = (if quarter \<in> set objectPrototypeProperties then TypeError
             else InvalidQuarter quarter)"
  have look: "(map_of QUARTERS quarter = None) = (quarter \<notin> S)"
    unfolding S_def by (rule QUARTERS_lookup)
  have bad1: "getWeekdaysInQuarter quarter year = Inl err" if "quarter \<notin> S"
    unfolding err_def using that look getWeekdaysInQuarter_Inl by blast
  have bad: "generateSchedule courses quarter year = Some (Inl err)" if "quarter \<notin> S"
    using runEngine_Inl [OF bad1 [OF that]] generateSchedule_Inl by blast
  have runs: "\<exists>r. generateSchedule courses quarter year = Some (Inr r)"
    if q: "quarter \<in> S" and y: "yearInRange year" and c: "\<forall>c \<in> set courses. 0 < cadence c"
  proof -
    from runEngine_completes [OF q [unfolded S_def] y c] obtain ss g h where
      "runEngine courses quarter year = Some (Inr (ss, g, h))" by blast
    from generateSchedule_Inr [OF this] show ?thesis by blast
  qed
  have good: "generateSchedule courses quarter year \<noteq> Some (Inl e)"
    if "quarter \<in> S" "yearInRange year" "\<forall>c \<in> set courses. 0 < cadence c" for e
    using runs [OF that] by auto
  have "(quarter \<notin> S \<longrightarrow>
      getWeekdaysInQuarter quarter year = Inl err
      \<and> generateSchedule courses quarter year = Some (Inl err))
   \<and> (yearInRange year \<and> (\<forall>c \<in> set courses. 0 < cadence c) \<longrightarrow>
        ((\<exists>e. generateSchedule courses quarter year = Some (Inl e)) \<longleftrightarrow> quarter \<notin> S)
        \<and> (quarter \<in> S \<longrightarrow> (\<exists>r. generateSchedule courses quarter year = Some (Inr r))))"
    using bad bad1 good runs by blast
  then show ?thesis unfolding S_def err_def .
qed

theorem generateSchedule_raises_iff_witness:
  "''Q5'' \<notin> {''Q1'', ''Q2'', ''Q3'', ''Q4''}
   \<and> generateSchedule [exampleFI] ''Q5'' 2025 = Some (Inl (InvalidQuarter ''Q5''))
   \<and> generateSchedule [exampleFI] ''toString'' 2025 = Some (Inl TypeError)
   \<and> ''Q1'' \<in> {''Q1'', ''Q2'', ''Q3'', ''Q4''}
   \<and> yearInRange 2025
   \<and> 0 < cadence exampleFI
   \<and> (\<exists>r. generateSchedule [exampleFI] ''Q1'' 2025 = Some (Inr r))"
  using generateSchedule_raises_iff [of "''Q5''" 2025 "[exampleFI]"]
    generateSchedule_raises_iff [of "''toString''" 2025 "[exampleFI]"]
    generateSchedule_raises_iff [of "''Q1''" 2025 "[exampleFI]"]
  by (simp add: exampleFI_def yearInRange_def objectPrototypeProperties_def)

section \<open>Lists\<close>

lemma findIndex_Some:
  "findIndex P xs = Some i \<Longrightarrow> i < length xs \<and> P (xs ! i) \<and> (\<forall>j<i. \<not> P (xs ! j))"
proof (induction xs arbitrary: i)
  case Nil
  then show ?case by simp
next
  case (Cons x xs)
  show ?case
  proof (cases "P x")
    case True
    with Cons.prems show ?thesis by simp
  next
    case False
    with Cons.prems obtain i' where i': "findIndex P xs = Some i'" "i = Suc i'" by auto
    from Cons.IH [OF i'(1)] False i'(2) show ?thesis
      by (auto simp: nth_Cons split: nat.splits)
  qed
qed

lemma findIndex_None: "findIndex P xs = None \<longleftrightarrow> (\<forall>x \<in> set xs. \<not> P x)"
  by (induction xs) auto

lemma findIndex_first:
  "i < length xs \<Longrightarrow> P (xs ! i) \<Longrightarrow> (\<forall>j<i. \<not> P (xs ! j)) \<Longrightarrow> findIndex P xs = Some i"
proof (induction xs arbitrary: i)
  case Nil
  then show ?case by simp
next
  case (Cons x xs)
  show ?case
  proof (cases i)
    case 0
    with Cons.prems show ?thesis by simp
  next
    case (Suc i')
    with Cons.prems have "\<not> P x" by auto
    moreover have "findIndex P xs = Some i'"
      using Cons.prems Suc by (intro Cons.IH) auto
    ultimately show ?thesis using Suc by simp
  qed
qed

section \<open>modifyDay\<close>

lemma map_of_modifyDay:
  "map_of (modifyDay k f g) k' = (if k' = k then map_option f (map_of g k) else map_of g k')"
  by (induction g) (auto simp: modifyDay_def)

lemma modifyDay_keys: "map fst (modifyDay k f g) = map fst g"
  by (induction g) (auto simp: modifyDay_def)

lemma modifyDay_commute:
  "k \<noteq> k' \<Longrightarrow> modifyDay k f (modifyDay k' f' g) = modifyDay k' f' (modifyDay k f g)"
  by (induction g) (auto simp: modifyDay_def)

lemma modifyDay_twice: "modifyDay k f (modifyDay k f' g) = modifyDay k (\<lambda>dd. f (f' dd)) g"
  by (induction g) (auto simp: modifyDay_def)

lemma modifyDay_id: "(\<And>dd. (k, dd) \<in> set g \<Longrightarrow> f dd = dd) \<Longrightarrow> modifyDay k f g = g"
  by (induction g) (auto simp: modifyDay_def)

lemma set_modifyDay:
  "distinct (map fst g) \<Longrightarrow> map_of g k = Some dd \<Longrightarrow>
   set (modifyDay k f g) = insert (k, f dd) (set g - {(k, dd)})"
proof (induction g)
  case Nil
  then show ?case by simp
next
  case (Cons e g)
  obtain k' dd' where e: "e = (k', dd')" by (cases e)
  show ?case
  proof (cases "k' = k")
    case True
    with Cons.prems e have dd: "dd' = dd" and nk: "k \<notin> fst ` set g" by auto
    have "modifyDay k f g = g"
      using nk by (intro modifyDay_id) (auto simp: image_iff)
    moreover have "(k, dd) \<notin> set g" using nk by (auto simp: image_iff)
    ultimately show ?thesis using True e dd by (auto simp: modifyDay_def)
  next
    case False
    with Cons.prems e have "map_of g k = Some dd" "distinct (map fst g)" by auto
    from Cons.IH [OF this(2) this(1)] False e show ?thesis
      by (auto simp: modifyDay_def)
  qed
qed

section \<open>One day\<close>

lemma slots_setSlot: "slots (setSlot i a occ dd) = (slots dd)[i := (slots dd ! i)\<lparr>available := a, session := occ\<rparr>]"
  by (simp add: setSlot_def)

lemma date_d_setSlot: "date_d (setSlot i a occ dd) = date_d dd"
  by (simp add: setSlot_def)

lemma skeleton_setSlot: "skeleton (setSlot i a occ dd) = skeleton dd"
proof -
  have "map (\<lambda>sl. (start sl, end_t sl)) ((slots dd)[i := (slots dd ! i)\<lparr>available := a, session := occ\<rparr>])
        = map (\<lambda>sl. (start sl, end_t sl)) (slots dd)"
  proof (cases "i < length (slots dd)")
    case True
    then show ?thesis
      by (intro nth_equalityI) (auto simp: nth_list_update)
  next
    case False
    then have "(slots dd)[i := (slots dd ! i)\<lparr>available := a, session := occ\<rparr>] = slots dd"
      by (intro list_update_beyond) simp
    then show ?thesis by (simp only:)
  qed
  then show ?thesis by (simp add: skeleton_def slots_setSlot)
qed

lemma setSlot_undo:
  assumes "i < length (slots dd)" "available (slots dd ! i)" "session (slots dd ! i) = None"
  shows "setSlot i True None (setSlot i False occ dd) = dd"
proof -
  let ?xs = "slots dd"
  have eq: "(?xs ! i)\<lparr>available := True, session := None\<rparr> = ?xs ! i"
    using assms by simp
  have "slots (setSlot i True None (setSlot i False occ dd)) =
        ?xs[i := (?xs ! i)\<lparr>available := True, session := None\<rparr>]"
    using assms(1) by (simp add: slots_setSlot)
  also have "\<dots> = ?xs" unfolding eq by simp
  finally have "slots (setSlot i True None (setSlot i False occ dd)) = slots dd" .
  moreover have "date_d (setSlot i True None (setSlot i False occ dd)) = date_d dd"
    by (simp add: date_d_setSlot)
  ultimately show ?thesis by (simp add: DayData.equality setSlot_def)
qed

lemma starts_distinct_index:
  assumes "distinct (map fst (skeleton dd))" "i < length (slots dd)" "j < length (slots dd)"
    "start (slots dd ! j) = start (slots dd ! i)"
  shows "j = i"
proof -
  have "map fst (skeleton dd) ! j = map fst (skeleton dd) ! i"
    using assms by (simp add: skeleton_def)
  with assms(1-3) show ?thesis
    by (simp add: skeleton_def nth_eq_iff_index_eq del: nth_map)
qed

lemma findIndex_after_booking:
  assumes d: "distinct (map fst (skeleton dd))"
    and f: "findIndex (\<lambda>s. start s = st \<and> available s) (slots dd) = Some i"
  shows "findIndex (\<lambda>s. start s = st) (slots (setSlot i a occ dd)) = Some i"
proof -
  from findIndex_Some [OF f] have i: "i < length (slots dd)" "start (slots dd ! i) = st"
    by auto
  show ?thesis
  proof (rule findIndex_first)
    show "i < length (slots (setSlot i a occ dd))" using i by (simp add: slots_setSlot)
    show "start (slots (setSlot i a occ dd) ! i) = st" using i by (simp add: slots_setSlot)
    show "\<forall>j<i. start (slots (setSlot i a occ dd) ! j) \<noteq> st"
    proof (intro allI impI)
      fix j assume j: "j < i"
      then have "slots (setSlot i a occ dd) ! j = slots dd ! j"
        by (simp add: slots_setSlot)
      moreover have "start (slots dd ! j) \<noteq> st"
        using starts_distinct_index [OF d i(1), of j] i j by auto
      ultimately show "start (slots (setSlot i a occ dd) ! j) \<noteq> st" by simp
    qed
  qed
qed

lemma occupiedIn_booked:
  assumes i: "i < length (slots dd)"
  shows "occupiedIn (setSlot i False occ dd) st' \<longleftrightarrow>
         st' = start (slots dd ! i) \<or> occupiedIn dd st'"
proof
  assume "occupiedIn (setSlot i False occ dd) st'"
  then obtain sl where sl: "sl \<in> set ((slots dd)[i := (slots dd ! i)\<lparr>available := False, session := occ\<rparr>])"
    "start sl = st'" "\<not> available sl"
    by (auto simp: occupiedIn_def slots_setSlot)
  from sl(1) have "sl = (slots dd ! i)\<lparr>available := False, session := occ\<rparr> \<or> sl \<in> set (slots dd)"
    using set_update_subset_insert by fastforce
  with sl(2,3) show "st' = start (slots dd ! i) \<or> occupiedIn dd st'"
    by (auto simp: occupiedIn_def)
next
  assume r: "st' = start (slots dd ! i) \<or> occupiedIn dd st'"
  let ?xs = "(slots dd)[i := (slots dd ! i)\<lparr>available := False, session := occ\<rparr>]"
  have new: "?xs ! i \<in> set ?xs" "start (?xs ! i) = start (slots dd ! i)" "\<not> available (?xs ! i)"
    using i by (simp_all add: set_update_memI)
  show "occupiedIn (setSlot i False occ dd) st'"
  proof (cases "st' = start (slots dd ! i)")
    case True
    with new show ?thesis unfolding occupiedIn_def slots_setSlot by blast
  next
    case False
    with r obtain sl where sl: "sl \<in> set (slots dd)" "start sl = st'" "\<not> available sl"
      by (auto simp: occupiedIn_def)
    then obtain j where j: "j < length (slots dd)" "slots dd ! j = sl"
      by (auto simp: in_set_conv_nth)
    with False sl have "j \<noteq> i" by auto
    then have "?xs ! j = sl" using j by simp
    moreover have "j < length ?xs" using j by simp
    ultimately have "sl \<in> set ?xs" by (metis nth_mem)
    with sl show ?thesis unfolding occupiedIn_def slots_setSlot by blast
  qed
qed

lemma dayAvailable_booked:
  assumes i: "i < length (slots dd)" and a: "available (slots dd ! i)"
  shows "dayAvailable (setSlot i False occ dd) + 1 = dayAvailable dd"
proof -
  let ?xs = "slots dd"
  let ?y = "(?xs ! i)\<lparr>available := False, session := occ\<rparr>"
  have 1: "?xs = take i ?xs @ ?xs ! i # drop (Suc i) ?xs"
    using i by (rule id_take_nth_drop)
  have 2: "?xs[i := ?y] = take i ?xs @ ?y # drop (Suc i) ?xs"
    using i by (rule upd_conv_take_nth_drop)
  have "length (filter available (?xs[i := ?y])) + 1 =
        length (filter available (take i ?xs @ ?xs ! i # drop (Suc i) ?xs))"
    unfolding 2 using a by simp
  then show ?thesis using 1 by (simp add: dayAvailable_def slots_setSlot)
qed

lemma length_slots_setSlot: "length (slots (setSlot i a occ dd)) = length (slots dd)"
  by (simp add: slots_setSlot)

section \<open>Slot tables\<close>

lemma WEEKLY_SCHEDULE_props:
  "\<forall>e \<in> set WEEKLY_SCHEDULE.
     distinct (map start (snd e)) \<and> (\<forall>sl \<in> set (snd e). minute (start sl) = 0)"
  by (simp add: WEEKLY_SCHEDULE_def slot_def)

lemma weeklySlots_props:
  "distinct (map start (weeklySlots n)) \<and> (\<forall>sl \<in> set (weeklySlots n). minute (start sl) = 0)"
proof (cases "map_of WEEKLY_SCHEDULE n")
  case None
  then show ?thesis by (simp add: weeklySlots_def)
next
  case (Some sls)
  then have "(n, sls) \<in> set WEEKLY_SCHEDULE" by (rule map_of_SomeD)
  with WEEKLY_SCHEDULE_props have "distinct (map start sls) \<and> (\<forall>sl \<in> set sls. minute (start sl) = 0)"
    by fastforce
  with Some show ?thesis by (simp add: weeklySlots_def)
qed

lemma getAvailableTimeSlots_cases:
  assumes "getAvailableTimeSlots d = Some (Inr sls)"
  shows "sls = [] \<or> sls = weeklySlots (DAY_NAMES ! getDay d)
         \<or> (\<exists>t. sls = filter (\<lambda>sl. timeLess (start sl) t) (weeklySlots (DAY_NAMES ! getDay d)))"
  using assms
  by (auto simp: getAvailableTimeSlots_def Let_def
      split: if_splits option.splits sum.splits bool.splits)

lemma getAvailableTimeSlots_sub:
  assumes "getAvailableTimeSlots d = Some (Inr sls)"
  shows "\<exists>P. sls = filter P (weeklySlots (DAY_NAMES ! getDay d))"
proof -
  let ?b = "weeklySlots (DAY_NAMES ! getDay d)"
  have e: "[] = filter (\<lambda>_. False) ?b" and f: "?b = filter (\<lambda>_. True) ?b" by simp_all
  from getAvailableTimeSlots_cases [OF assms] show ?thesis
  proof (elim disjE exE)
    assume "sls = []"
    with e show ?thesis by metis
  next
    assume "sls = ?b"
    with f show ?thesis by metis
  next
    fix t assume "sls = filter (\<lambda>sl. timeLess (start sl) t) ?b"
    then show ?thesis by blast
  qed
qed

lemma getAvailableTimeSlots_distinct:
  assumes "getAvailableTimeSlots d = Some (Inr sls)"
  shows "distinct (map start sls)"
proof -
  obtain P where "sls = filter P (weeklySlots (DAY_NAMES ! getDay d))"
    using getAvailableTimeSlots_sub [OF assms] by blast
  then show ?thesis using weeklySlots_props by (simp add: distinct_map_filter)
qed

lemma getAvailableTimeSlots_minute:
  assumes "getAvailableTimeSlots d = Some (Inr sls)" and a: "sl \<in> set sls"
  shows "minute (start sl) = 0"
proof -
  obtain P where "sls = filter P (weeklySlots (DAY_NAMES ! getDay d))"
    using getAvailableTimeSlots_sub [OF assms(1)] by blast
  with a show ?thesis using weeklySlots_props by auto
qed

section \<open>Well-formed grids\<close>

lemma wfGrid_entry: "wfGrid g \<Longrightarrow> map_of g k = Some dd \<Longrightarrow> wfDay (k, dd)"
  by (auto simp: wfGrid_def list_all_iff dest: map_of_SomeD)

lemma wfGrid_mem: "wfGrid g \<Longrightarrow> (k, dd) \<in> set g \<longleftrightarrow> map_of g k = Some dd"
  by (auto simp: wfGrid_def)

lemma wfDay_iff:
  "wfDay (k, dd) =
     (k = format (date_d dd)
      \<and> (\<exists>sls. getAvailableTimeSlots (date_d dd) = Some (Inr sls)
               \<and> skeleton dd = map (\<lambda>sl. (start sl, end_t sl)) sls)
      \<and> list_all (\<lambda>sl. available sl \<longrightarrow> session sl = None) (slots dd))"
  by (auto simp: wfDay_def split: option.splits sum.splits)

lemma wfDay_slots:
  assumes "wfDay (k, dd)"
  shows "\<exists>sls. getAvailableTimeSlots (date_d dd) = Some (Inr sls)
           \<and> skeleton dd = map (\<lambda>sl. (start sl, end_t sl)) sls"
  using assms by (auto simp: wfDay_def split: option.splits sum.splits)

lemma wfDay_starts: "wfDay (k, dd) \<Longrightarrow> distinct (map fst (skeleton dd))"
proof -
  assume "wfDay (k, dd)"
  from wfDay_slots [OF this] obtain sls where
    s: "getAvailableTimeSlots (date_d dd) = Some (Inr sls)"
    "skeleton dd = map (\<lambda>sl. (start sl, end_t sl)) sls" by blast
  then have "map fst (skeleton dd) = map start sls" by (simp add: comp_def)
  then show ?thesis using getAvailableTimeSlots_distinct [OF s(1)] by simp
qed

lemma wfDay_setSlot:
  assumes "wfDay (k, dd)" "a \<longrightarrow> occ = None"
  shows "wfDay (k, setSlot i a occ dd)"
proof -
  have "list_all (\<lambda>sl. available sl \<longrightarrow> session sl = None) (slots (setSlot i a occ dd))"
  proof -
    have "\<forall>sl \<in> set (slots dd). available sl \<longrightarrow> session sl = None"
      using assms(1) by (simp add: wfDay_iff list_all_iff)
    moreover have "set ((slots dd)[i := (slots dd ! i)\<lparr>available := a, session := occ\<rparr>])
         \<subseteq> insert ((slots dd ! i)\<lparr>available := a, session := occ\<rparr>) (set (slots dd))"
      by (rule set_update_subset_insert)
    ultimately show ?thesis using assms(2)
      by (auto simp: list_all_iff slots_setSlot)
  qed
  with assms(1) show ?thesis
    by (simp add: wfDay_iff skeleton_setSlot date_d_setSlot)
qed

lemma wfGrid_modifyDay:
  assumes "wfGrid g" "a \<longrightarrow> occ = None"
  shows "wfGrid (modifyDay k (setSlot i a occ) g)"
proof -
  have "list_all wfDay (modifyDay k (setSlot i a occ) g)"
    using assms wfDay_setSlot [OF _ assms(2)]
    by (auto simp: wfGrid_def list_all_iff modifyDay_def)
  with assms(1) show ?thesis by (simp add: wfGrid_def modifyDay_keys)
qed

lemma occupiedKeys_iff:
  "wfGrid g \<Longrightarrow> (k, st) \<in> occupiedKeys g \<longleftrightarrow> (\<exists>dd. map_of g k = Some dd \<and> occupiedIn dd st)"
proof -
  assume wf: "wfGrid g"
  have "(k, st) \<in> occupiedKeys g \<longleftrightarrow>
        (\<exists>dd sl. (k, dd) \<in> set g \<and> sl \<in> set (slots dd) \<and> \<not> available sl \<and> start sl = st)"
    unfolding occupiedKeys_def by blast
  also have "\<dots> \<longleftrightarrow> (\<exists>dd. map_of g k = Some dd \<and> occupiedIn dd st)"
    unfolding occupiedIn_def wfGrid_mem [OF wf] by blast
  finally show ?thesis .
qed

lemma occupiedKeys_booked:
  assumes wf: "wfGrid g" and dd: "map_of g k = Some dd" and i: "i < length (slots dd)"
  shows "occupiedKeys (modifyDay k (setSlot i False occ) g) =
         insert (k, start (slots dd ! i)) (occupiedKeys g)"
proof -
  have wf': "wfGrid (modifyDay k (setSlot i False occ) g)"
    using wf by (rule wfGrid_modifyDay) simp
  show ?thesis
  proof (rule set_eqI, clarify)
    fix k' st'
    show "(k', st') \<in> occupiedKeys (modifyDay k (setSlot i False occ) g) \<longleftrightarrow>
          (k', st') \<in> insert (k, start (slots dd ! i)) (occupiedKeys g)"
      using dd occupiedIn_booked [OF i, of occ st']
      by (auto simp: occupiedKeys_iff [OF wf] occupiedKeys_iff [OF wf'] map_of_modifyDay)
  qed
qed

lemma free_slot_not_occupied:
  assumes wf: "wfGrid g" and dd: "map_of g k = Some dd"
    and f: "findIndex (\<lambda>s. start s = st \<and> available s) (slots dd) = Some i"
  shows "(k, st) \<notin> occupiedKeys g"
proof
  assume "(k, st) \<in> occupiedKeys g"
  with dd have "occupiedIn dd st" by (simp add: occupiedKeys_iff [OF wf])
  then obtain j where j: "j < length (slots dd)" "start (slots dd ! j) = st"
    "\<not> available (slots dd ! j)"
    by (auto simp: occupiedIn_def in_set_conv_nth)
  from findIndex_Some [OF f] have i: "i < length (slots dd)" "start (slots dd ! i) = st"
    "available (slots dd ! i)" by auto
  have "j = i"
    using starts_distinct_index [OF wfDay_starts [OF wfGrid_entry [OF wf dd]] i(1) j(1)] i j
    by simp
  with i j show False by simp
qed

section \<open>Counting\<close>

lemma sum_modifyDay:
  assumes "distinct (map fst g)" "map_of g k = Some dd"
  shows "sum_list (map (\<lambda>(k, dd). F dd) (modifyDay k f g)) + F dd =
         sum_list (map (\<lambda>(k, dd). F dd) g) + (F (f dd) :: nat)"
  using assms
proof (induction g)
  case Nil
  then show ?case by simp
next
  case (Cons e g)
  obtain k' dd' where e: "e = (k', dd')" by (cases e)
  show ?case
  proof (cases "k' = k")
    case True
    with Cons.prems e have dd: "dd' = dd" and nk: "k \<notin> fst ` set g" by auto
    have "modifyDay k f g = g"
      using nk by (intro modifyDay_id) (auto simp: image_iff)
    then show ?thesis using True e dd by (simp add: modifyDay_def)
  next
    case False
    with Cons.prems e have "map_of g k = Some dd" "distinct (map fst g)" by auto
    from Cons.IH [OF this(2) this(1)] False e show ?thesis
      by (simp add: modifyDay_def)
  qed
qed

lemma freeCount_booked:
  assumes wf: "wfGrid g" and dd: "map_of g k = Some dd" and i: "i < length (slots dd)"
    and a: "available (slots dd ! i)"
  shows "freeCount (modifyDay k (setSlot i False occ) g) + 1 = freeCount g"
proof -
  have d: "distinct (map fst g)" using wf by (simp add: wfGrid_def)
  from sum_modifyDay [OF d dd, of dayAvailable "setSlot i False occ"]
    dayAvailable_booked [OF i a, of occ]
  show ?thesis by (simp add: freeCount_def)
qed

lemma totalCount_modifyDay:
  "totalCount (modifyDay k (setSlot i a occ) g) = totalCount g"
  by (induction g) (auto simp: totalCount_def modifyDay_def length_slots_setSlot)

section \<open>Rollback\<close>

lemma rollbackSessions_append:
  "rollbackSessions (bs @ [s]) g = rollbackSession s (rollbackSessions bs g)"
  by (induction bs arbitrary: g) simp_all

lemma rollbackSession_undo:
  assumes wf: "wfGrid g" and dd: "map_of g (format (date s)) = Some dd"
    and f: "findIndex (\<lambda>sl. start sl = startTime s \<and> available sl) (slots dd) = Some i"
  shows "rollbackSession s (modifyDay (format (date s)) (setSlot i False occ) g) = g"
proof -
  let ?k = "format (date s)"
  let ?g = "modifyDay ?k (setSlot i False occ) g"
  have wd: "wfDay (?k, dd)" using wf dd by (rule wfGrid_entry)
  from findIndex_Some [OF f] have i: "i < length (slots dd)" "available (slots dd ! i)" by auto
  have sn: "session (slots dd ! i) = None"
    using wd i by (auto simp: wfDay_def list_all_iff)
  have 1: "map_of ?g ?k = Some (setSlot i False occ dd)"
    using dd by (simp add: map_of_modifyDay)
  have 2: "findIndex (\<lambda>sl. start sl = startTime s) (slots (setSlot i False occ dd)) = Some i"
    using wfDay_starts [OF wd] f by (rule findIndex_after_booking)
  have "rollbackSession s ?g = modifyDay ?k (setSlot i True None) ?g"
    using 1 2 by (simp add: rollbackSession_def Let_def)
  also have "\<dots> = modifyDay ?k (\<lambda>dd. setSlot i True None (setSlot i False occ dd)) g"
    by (rule modifyDay_twice)
  also have "\<dots> = g"
  proof (rule modifyDay_id)
    fix dd' assume "(?k, dd') \<in> set g"
    with wf dd have "dd' = dd" by (simp add: wfGrid_mem)
    then show "setSlot i True None (setSlot i False occ dd') = dd'"
      using setSlot_undo [OF i sn] by simp
  qed
  finally show ?thesis .
qed

lemma rollbackSession_commute:
  assumes "format (date s) \<noteq> k"
  shows "rollbackSession s (modifyDay k f g) = modifyDay k f (rollbackSession s g)"
proof -
  have "map_of (modifyDay k f g) (format (date s)) = map_of g (format (date s))"
    using assms by (simp add: map_of_modifyDay)
  then show ?thesis
    using assms
    by (auto simp: rollbackSession_def Let_def modifyDay_commute split: option.splits)
qed

lemma rollbackSessions_commute:
  "\<forall>s \<in> set bs. format (date s) \<noteq> k \<Longrightarrow>
   rollbackSessions bs (modifyDay k f g) = modifyDay k f (rollbackSessions bs g)"
  by (induction bs arbitrary: g) (simp_all add: rollbackSession_commute)

section \<open>The booking loop\<close>

lemma bookInv_init: "wfGrid g \<Longrightarrow> bookInv g g [] st"
  by (simp add: bookInv_def)

lemma bookInv_step:
  assumes inv: "bookInv g0 g bs st"
    and dd: "map_of g (format d) = Some dd"
    and f: "findIndex (\<lambda>sl. start sl = st \<and> available sl) (slots dd) = Some i"
    and s: "date s = d" "startTime s = st"
  shows "bookInv g0 (modifyDay (format d) (setSlot i False occ) g) (bs @ [s]) st"
proof -
  let ?k = "format d"
  let ?g = "modifyDay ?k (setSlot i False occ) g"
  from inv have wf: "wfGrid g" and wf0: "wfGrid g0"
    and keys: "map fst g = map fst g0"
    and rb0: "rollbackSessions bs g = g0"
    and same: "\<And>d. format d \<notin> (\<lambda>s. format (date s)) ` set bs \<Longrightarrow>
                 map_of g (format d) = map_of g0 (format d)"
    and dist: "distinct (map sessionKey bs)"
    and occ0: "occupiedKeys g = occupiedKeys g0 \<union> set (map sessionKey bs)"
    and disj: "set (map sessionKey bs) \<inter> occupiedKeys g0 = {}"
    and sts: "\<And>s'. s' \<in> set bs \<Longrightarrow> startTime s' = st"
    and fc: "freeCount g + length bs = freeCount g0"
    and tc: "totalCount g = totalCount g0"
    by (simp_all add: bookInv_def)
  from findIndex_Some [OF f] have i: "i < length (slots dd)" "start (slots dd ! i) = st"
    "available (slots dd ! i)" by auto
  have key: "sessionKey s = (?k, st)" using s by (simp add: sessionKey_def)
  have nocc: "(?k, st) \<notin> occupiedKeys g" using wf dd f by (rule free_slot_not_occupied)
  have occ: "occupiedKeys ?g = insert (?k, st) (occupiedKeys g)"
    using occupiedKeys_booked [OF wf dd i(1)] i(2) by simp
  have others: "\<forall>s' \<in> set bs. format (date s') \<noteq> ?k"
  proof
    fix s' assume s': "s' \<in> set bs"
    then have "sessionKey s' \<in> occupiedKeys g" using occ0 by simp
    moreover have "startTime s' = st" using s' by (rule sts)
    ultimately show "format (date s') \<noteq> ?k" using nocc by (auto simp: sessionKey_def)
  qed
  then have notin: "?k \<notin> (\<lambda>s. format (date s)) ` set bs" by auto
  have dd0: "map_of g0 ?k = Some dd" using same [OF notin] dd by simp
  have rb: "rollbackSessions (bs @ [s]) ?g = g0"
  proof -
    have "rollbackSessions (bs @ [s]) ?g = rollbackSession s (rollbackSessions bs ?g)"
      by (rule rollbackSessions_append)
    also have "rollbackSessions bs ?g = modifyDay ?k (setSlot i False occ) (rollbackSessions bs g)"
      using others by (rule rollbackSessions_commute)
    also have "rollbackSessions bs g = g0" by (rule rb0)
    also have "rollbackSession s (modifyDay ?k (setSlot i False occ) g0) = g0"
      using rollbackSession_undo [of g0 s dd i occ] wf0 dd0 f s by simp
    finally show ?thesis .
  qed
  have same': "map_of ?g (format d') = map_of g0 (format d')"
    if "format d' \<notin> (\<lambda>s. format (date s)) ` set (bs @ [s])" for d'
  proof -
    from that s have "format d' \<noteq> ?k" "format d' \<notin> (\<lambda>s. format (date s)) ` set bs"
      by auto
    then show ?thesis using same by (simp add: map_of_modifyDay)
  qed
  have dist': "distinct (map sessionKey (bs @ [s]))"
    using dist key nocc occ0 by auto
  have occ': "occupiedKeys ?g = occupiedKeys g0 \<union> set (map sessionKey (bs @ [s]))"
    using occ occ0 key by auto
  have disj': "set (map sessionKey (bs @ [s])) \<inter> occupiedKeys g0 = {}"
    using disj key nocc occ0 by auto
  have fc': "freeCount ?g + length (bs @ [s]) = freeCount g0"
    using freeCount_booked [OF wf dd i(1) i(3), of occ] fc by simp
  have wf': "wfGrid ?g" using wf by (rule wfGrid_modifyDay) simp
  show ?thesis
    unfolding bookInv_def
    using wf0 wf' keys rb same' dist' occ' disj' sts s fc' tc
    by (simp add: modifyDay_keys totalCount_modifyDay) 
qed

lemma newSession_sel:
  "date (newSession c sl d n) = d" "startTime (newSession c sl d n) = startTime_c sl"
  "endTime (newSession c sl d n) = endTime_c sl" "courseName (newSession c sl d n) = title c"
  "sessionNumber (newSession c sl d n) = n"
  by (simp_all add: newSession_def)

lemma bookLoop_grid:
  "bookInv g0 g bs (startTime_c sl) \<Longrightarrow> bookLoop c sl qd n cur g bs = (ss, g') \<Longrightarrow>
   (ss = [] \<and> g' = g0) \<or> bookInv g0 g' ss (startTime_c sl)"
proof (induction c sl qd n cur g bs rule: bookLoop.induct)
  case (1 c sl qd n cur g bs)
  note inv = \<open>bookInv g0 g bs (startTime_c sl)\<close>
  note res = \<open>bookLoop c sl qd n cur g bs = (ss, g')\<close>
  have rb: "rollbackSessions bs g = g0" using inv by (simp add: bookInv_def)
  show ?case
  proof (cases "n \<le> sessions c")
    case False
    with res have "ss = bs" "g' = g" by (simp_all add: bookLoop.simps [of c sl qd n cur g bs])
    with inv show ?thesis by simp
  next
    case le: True
    show ?thesis
    proof (cases "findNextAvailableDate cur (dayOfWeek sl) qd")
      case None
      with le res rb show ?thesis by (simp add: bookLoop.simps [of c sl qd n cur g bs])
    next
      case (Some d)
      show ?thesis
      proof (cases "map_of g (format d)")
        case None
        with le Some res rb show ?thesis by (simp add: bookLoop.simps [of c sl qd n cur g bs])
      next
        case dd: (Some dd)
        show ?thesis
        proof (cases "findIndex (\<lambda>s. start s = startTime_c sl \<and> available s) (slots dd)")
          case None
          with le Some dd res rb show ?thesis
            by (simp add: bookLoop.simps [of c sl qd n cur g bs])
        next
          case i: (Some i)
          let ?occ = "Some \<lparr>course = title c, sessionNumber_o = n\<rparr>"
          let ?g = "modifyDay (format d) (setSlot i False ?occ) g"
          let ?bs = "bs @ [newSession c sl d n]"
          have inv': "bookInv g0 ?g ?bs (startTime_c sl)"
            using inv dd i by (rule bookInv_step) (simp_all add: newSession_sel)
          have "bookLoop c sl qd (n + 1) (addWeeks d 1) ?g ?bs = (ss, g')"
            using le Some dd i res by (simp add: bookLoop.simps [of c sl qd n cur g bs])
          from "1.IH" [OF le Some dd i inv' this] show ?thesis .
        qed
      qed
    qed
  qed
qed

lemma bookLoop_shape:
  "bookLoop c sl qd n cur g bs = (ss, g') \<Longrightarrow>
   ss = [] \<or>
   (\<exists>ds. nextDates (dayOfWeek sl) qd cur (Suc (sessions c) - n) = Some ds
      \<and> ss = bs @ map (\<lambda>(d, i). newSession c sl d i) (zip ds [n..<Suc (sessions c)]))"
proof (induction c sl qd n cur g bs rule: bookLoop.induct)
  case (1 c sl qd n cur g bs)
  note res = \<open>bookLoop c sl qd n cur g bs = (ss, g')\<close>
  show ?case
  proof (cases "n \<le> sessions c")
    case False
    with res have "ss = bs" by (simp add: bookLoop.simps [of c sl qd n cur g bs])
    moreover from False have "Suc (sessions c) - n = 0" by simp
    ultimately show ?thesis using False by simp
  next
    case le: True
    show ?thesis
    proof (cases "findNextAvailableDate cur (dayOfWeek sl) qd")
      case None
      with le res show ?thesis by (simp add: bookLoop.simps [of c sl qd n cur g bs])
    next
      case (Some d)
      show ?thesis
      proof (cases "map_of g (format d)")
        case None
        with le Some res show ?thesis by (simp add: bookLoop.simps [of c sl qd n cur g bs])
      next
        case dd: (Some dd)
        show ?thesis
        proof (cases "findIndex (\<lambda>s. start s = startTime_c sl \<and> available s) (slots dd)")
          case None
          with le Some dd res show ?thesis
            by (simp add: bookLoop.simps [of c sl qd n cur g bs])
        next
          case i: (Some i)
          let ?occ = "Some \<lparr>course = title c, sessionNumber_o = n\<rparr>"
          let ?g = "modifyDay (format d) (setSlot i False ?occ) g"
          let ?bs = "bs @ [newSession c sl d n]"
          have "bookLoop c sl qd (n + 1) (addWeeks d 1) ?g ?bs = (ss, g')"
            using le Some dd i res by (simp add: bookLoop.simps [of c sl qd n cur g bs])
          from "1.IH" [OF le Some dd i this]
          have "ss = [] \<or>
            (\<exists>ds. nextDates (dayOfWeek sl) qd (addWeeks d 1) (Suc (sessions c) - (n + 1)) = Some ds
               \<and> ss = ?bs @ map (\<lambda>(d, i). newSession c sl d i)
                               (zip ds [n + 1..<Suc (sessions c)]))" .
          then show ?thesis
          proof
            assume "ss = []" then show ?thesis by simp
          next
            assume "\<exists>ds. nextDates (dayOfWeek sl) qd (addWeeks d 1) (Suc (sessions c) - (n + 1)) = Some ds
               \<and> ss = ?bs @ map (\<lambda>(d, i). newSession c sl d i)
                               (zip ds [n + 1..<Suc (sessions c)])"
            then obtain ds where ds:
              "nextDates (dayOfWeek sl) qd (addWeeks d 1) (Suc (sessions c) - (n + 1)) = Some ds"
              "ss = ?bs @ map (\<lambda>(d, i). newSession c sl d i) (zip ds [n + 1..<Suc (sessions c)])"
              by blast
            have k: "Suc (sessions c) - n = Suc (Suc (sessions c) - (n + 1))" using le by simp
            have u: "[n..<Suc (sessions c)] = n # [n + 1..<Suc (sessions c)]"
              using le by (simp add: upt_conv_Cons)
            have "nextDates (dayOfWeek sl) qd cur (Suc (sessions c) - n) = Some (d # ds)"
              unfolding k using Some ds(1) by simp
            moreover have "ss = bs @ map (\<lambda>(d, i). newSession c sl d i)
                 (zip (d # ds) [n..<Suc (sessions c)])"
              unfolding u using ds(2) by simp
            ultimately show ?thesis by blast
          qed
        qed
      qed
    qed
  qed
qed

section \<open>Weekdays\<close>

lemma getDay_add_weeks: "getDay (d + k * 7) = getDay d"
proof -
  have "d + k * 7 + 4 = (d + 4) + k * 7" by simp
  then show ?thesis by (simp only: getDay_def mod_mult_self1)
qed

lemma getDay_add_7k: "getDay (d + 7 * k) = getDay d"
  using getDay_add_weeks [of d k] by (simp add: mult.commute)

lemma addWeeks_Some: "addWeeks d k = Some e \<Longrightarrow> e = d + k * 7"
  by (simp add: addWeeks_def addDays_def TimeClip_Some)

lemma indexOf_DAY_NAMES: "i < 7 \<Longrightarrow> indexOf DAY_NAMES (DAY_NAMES ! i) = Some i"
proof -
  assume "i < 7"
  then have "i = 0 \<or> i = 1 \<or> i = 2 \<or> i = 3 \<or> i = 4 \<or> i = 5 \<or> i = 6" by arith
  then show ?thesis by (elim disjE) (simp_all add: indexOf_def DAY_NAMES_def)
qed

lemma indexOf_getDay: "indexOf DAY_NAMES (DAY_NAMES ! getDay d) = Some (getDay d)"
  using getDay_lt7 by (rule indexOf_DAY_NAMES)

lemma indexOf_nth: "indexOf xs x = Some i \<Longrightarrow> xs ! i = x"
  unfolding indexOf_def using findIndex_Some by fastforce

section \<open>The dates of the booking loop\<close>

lemma findNextAvailableDate_Some:
  "findNextAvailableDate cur dow qd = Some d \<Longrightarrow>
   d \<in> set qd \<and> (\<exists>c. cur = Some c \<and> c \<le> d) \<and> Some (getDay d) = indexOf DAY_NAMES dow"
  unfolding findNextAvailableDate_def Let_def
  by (auto simp: find_Some_iff dateLe_def split: option.splits)

lemma findNextAvailableDate_invalid: "findNextAvailableDate None dow qd = None"
  by (simp add: findNextAvailableDate_def dateLe_def find_None_iff)

lemma nextDates_invalid: "nextDates dow qd None k = Some ds \<Longrightarrow> k = 0 \<and> ds = []"
  by (cases k) (simp_all add: findNextAvailableDate_invalid)

lemma nextDates_props:
  "nextDates dow qd cur k = Some ds \<Longrightarrow>
   length ds = k
   \<and> (\<forall>d \<in> set ds. d \<in> set qd \<and> (\<exists>c. cur = Some c \<and> c \<le> d)
          \<and> Some (getDay d) = indexOf DAY_NAMES dow)
   \<and> distinct ds"
proof (induction k arbitrary: cur ds)
  case 0
  then show ?case by simp
next
  case (Suc k)
  from Suc.prems obtain d ds' where d: "findNextAvailableDate cur dow qd = Some d"
    and ds': "nextDates dow qd (addWeeks d 1) k = Some ds'" and ds: "ds = d # ds'"
    by (auto split: option.splits)
  from Suc.IH [OF ds'] have ih: "length ds' = k"
    "\<forall>e \<in> set ds'. e \<in> set qd \<and> (\<exists>c. addWeeks d 1 = Some c \<and> c \<le> e)
        \<and> Some (getDay e) = indexOf DAY_NAMES dow"
    "distinct ds'" by auto
  from findNextAvailableDate_Some [OF d] obtain c where dp: "d \<in> set qd" "cur = Some c" "c \<le> d"
    "Some (getDay d) = indexOf DAY_NAMES dow" by auto
  have "\<forall>e \<in> set ds'. d < e \<and> c \<le> e"
  proof
    fix e assume "e \<in> set ds'"
    with ih(2) obtain x where "addWeeks d 1 = Some x" "x \<le> e" by blast
    with addWeeks_Some [of d 1 x] dp(3) show "d < e \<and> c \<le> e" by simp
  qed
  then have "\<forall>e \<in> set ds. e \<in> set qd \<and> (\<exists>c. cur = Some c \<and> c \<le> e)
          \<and> Some (getDay e) = indexOf DAY_NAMES dow"
    using ih(2) dp unfolding ds by simp
  moreover have "length ds = Suc k" using ih(1) ds by simp
  moreover have "distinct ds" using ih(3) \<open>\<forall>e \<in> set ds'. d < e \<and> c \<le> e\<close> ds by auto
  ultimately show ?case by blast
qed


lemma find_sorted_le:
  "sorted xs \<Longrightarrow> find P xs = Some d \<Longrightarrow> x \<in> set xs \<Longrightarrow> P x \<Longrightarrow> d \<le> (x::int)"
  by (induction xs) (auto split: if_splits)

lemma sorted_weekdaysBetween: "sorted (weekdaysBetween lo hi)"
  by (simp add: weekdaysBetween_def sorted_wrt_filter)

lemma findNextAvailableDate_exact:
  assumes qd: "qd = weekdaysBetween lo hi" and lo: "lo \<le> cur"
    and wd: "Some (getDay cur) = indexOf DAY_NAMES dow"
    and f: "findNextAvailableDate (Some cur) dow qd = Some d"
  shows "d = cur"
proof -
  from findNextAvailableDate_Some [OF f] have dp: "d \<in> set qd" "cur \<le> d"
    "Some (getDay d) = indexOf DAY_NAMES dow" by auto
  with wd have "getDay d = getDay cur" by (metis option.inject)
  with dp(1,2) lo have c: "cur \<in> set qd" unfolding qd weekdaysBetween_def by auto
  have s: "sorted qd" unfolding qd by (rule sorted_weekdaysBetween)
  have fd: "find (\<lambda>e. cur \<le> e \<and> Some (getDay e) = indexOf DAY_NAMES dow) qd = Some d"
    using f by (simp add: findNextAvailableDate_def Let_def dateLe_def)
  have p: "cur \<le> cur \<and> Some (getDay cur) = indexOf DAY_NAMES dow" using wd by simp
  have "d \<le> cur"
    by (rule find_sorted_le [where P = "\<lambda>e. cur \<le> e \<and> Some (getDay e) = indexOf DAY_NAMES dow", OF s fd c p])
  with dp(2) show ?thesis by simp
qed

lemma nextDates_exact:
  assumes qd: "qd = weekdaysBetween lo hi"
  shows "lo \<le> cur \<Longrightarrow> Some (getDay cur) = indexOf DAY_NAMES dow \<Longrightarrow>
         nextDates dow qd (Some cur) k = Some ds \<Longrightarrow> ds = map (\<lambda>i. cur + 7 * int i) [0..<k]"
proof (induction k arbitrary: cur ds)
  case 0
  then show ?case by simp
next
  case (Suc k)
  from Suc.prems(3) obtain d ds' where d: "findNextAvailableDate (Some cur) dow qd = Some d"
    and ds': "nextDates dow qd (addWeeks d 1) k = Some ds'" and ds: "ds = d # ds'"
    by (auto split: option.splits)
  have dc: "d = cur" using qd Suc.prems(1,2) d by (rule findNextAvailableDate_exact)
  have "ds' = map (\<lambda>i. cur + 7 * int (Suc i)) [0..<k]"
  proof (cases "addWeeks cur 1")
    case None
    with ds' dc have "k = 0 \<and> ds' = []" by (intro nextDates_invalid [of dow qd]) simp
    then show ?thesis by simp
  next
    case (Some x)
    then have x: "x = cur + 7" using addWeeks_Some [of cur 1 x] by simp
    have "ds' = map (\<lambda>i. x + 7 * int i) [0..<k]"
      using ds' Suc.prems(1,2) unfolding dc Some
      by (intro Suc.IH) (simp_all add: x getDay_add_7k [of cur 1, simplified])
    then show ?thesis by (simp add: x)
  qed
  then have "ds' = map (\<lambda>i. cur + 7 * int i) (map Suc [0..<k])" by (simp add: comp_def)
  then have "ds' = map (\<lambda>i. cur + 7 * int i) [1..<Suc k]" by (simp only: map_Suc_upt) simp
  moreover have "[0..<Suc k] = 0 # [1..<Suc k]" by (simp add: upt_conv_Cons)
  ultimately show ?case unfolding ds dc by (simp del: upt_Suc)
qed

section \<open>The slot search\<close>

lemma findSlotLoop_Some:
  "findSlotLoop dow li isFI sls = Some sl \<Longrightarrow>
   dayOfWeek sl = dow
   \<and> (\<exists>gs \<in> set sls. available gs \<and> start gs = startTime_c sl \<and> end_t gs = endTime_c sl)
   \<and> (isFI \<longrightarrow> isValidForFinancialIntelligence dow (startTime_c sl))
   \<and> (\<forall>e. li = Some e \<longrightarrow>
         (\<not> isFI \<longrightarrow> dow \<noteq> dayOfWeek_h e)
         \<and> \<not> lessThanThreeHours (startTime_c sl) (startTime_h e))"
proof (induction sls)
  case Nil
  then show ?case by simp
next
  case (Cons a sls)
  show ?case
  proof (cases "findSlotLoop dow li isFI (a # sls) = findSlotLoop dow li isFI sls")
    case True
    with Cons show ?thesis by auto
  next
    case False
    then have sl: "sl = \<lparr>dayOfWeek = dow, startTime_c = start a, endTime_c = end_t a\<rparr>"
      and a: "available a"
      and fi: "isFI \<longrightarrow> isValidForFinancialIntelligence dow (start a)"
      and h: "\<forall>e. li = Some e \<longrightarrow> (\<not> isFI \<longrightarrow> dow \<noteq> dayOfWeek_h e)
                  \<and> \<not> lessThanThreeHours (start a) (startTime_h e)"
      using Cons.prems by (auto split: if_splits option.splits)
    then show ?thesis by simp
  qed
qed

lemma findSuitableSlot_Some:
  assumes "findSuitableSlot d c g hist isFI = Some sl"
  shows "dayOfWeek sl = DAY_NAMES ! getDay d"
    and "\<exists>dd. map_of g (format d) = Some dd
           \<and> (\<exists>gs \<in> set (slots dd). available gs \<and> start gs = startTime_c sl
                 \<and> end_t gs = endTime_c sl)"
    and "isFI \<Longrightarrow> isValidForFinancialIntelligence (DAY_NAMES ! getDay d) (startTime_c sl)"
    and "hist \<noteq> [] \<Longrightarrow> \<not> isFI \<Longrightarrow> DAY_NAMES ! getDay d \<noteq> dayOfWeek_h (last hist)"
    and "hist \<noteq> [] \<Longrightarrow> \<not> lessThanThreeHours (startTime_c sl) (startTime_h (last hist))"
proof -
  from assms obtain dd where dd: "map_of g (format d) = Some dd"
    and f: "findSlotLoop (DAY_NAMES ! getDay d) (if hist = [] then None else Some (last hist))
              isFI (slots dd) = Some sl"
    by (auto simp: findSuitableSlot_def Let_def split: option.splits)
  note r = findSlotLoop_Some [OF f]
  show "dayOfWeek sl = DAY_NAMES ! getDay d" using r by simp
  show "\<exists>dd. map_of g (format d) = Some dd
           \<and> (\<exists>gs \<in> set (slots dd). available gs \<and> start gs = startTime_c sl
                 \<and> end_t gs = endTime_c sl)" using r dd by simp
  show "isFI \<Longrightarrow> isValidForFinancialIntelligence (DAY_NAMES ! getDay d) (startTime_c sl)"
    using r by simp
  show "hist \<noteq> [] \<Longrightarrow> \<not> isFI \<Longrightarrow> DAY_NAMES ! getDay d \<noteq> dayOfWeek_h (last hist)"
    using r by simp
  show "hist \<noteq> [] \<Longrightarrow> \<not> lessThanThreeHours (startTime_c sl) (startTime_h (last hist))"
    using r by simp
qed

text \<open>The weekday of the most recent instance plays no part for the special course.\<close>

lemma findSlotLoop_weekday_exempt:
  "findSlotLoop dow (Some (e\<lparr>dayOfWeek_h := w\<rparr>)) True sls = findSlotLoop dow (Some e) True sls"
  by (induction sls) simp_all

lemma findSuitableSlot_weekday_exempt:
  "findSuitableSlot d c g (hist @ [e\<lparr>dayOfWeek_h := w\<rparr>]) True =
   findSuitableSlot d c g (hist @ [e]) True"
  by (simp add: findSuitableSlot_def Let_def findSlotLoop_weekday_exempt split: option.splits)

text \<open>Two start times of the special course are less than three hours apart.\<close>

lemma special_times_close:
  assumes "isValidForFinancialIntelligence dow t" "minute t = 0"
    and "10 \<le> hour u" "hour u < 13" "minute u = 0"
  shows "lessThanThreeHours t u"
proof -
  have "10 \<le> hour t" "hour t < 13"
    using assms(1) by (auto simp: isValidForFinancialIntelligence_def Let_def split: if_splits)
  then show ?thesis using assms(2-5) by (simp add: lessThanThreeHours_minutes)
qed

lemma findSlotLoop_special_None:
  assumes "\<forall>gs \<in> set sls. minute (start gs) = 0"
    and "10 \<le> hour (startTime_h e)" "hour (startTime_h e) < 13" "minute (startTime_h e) = 0"
  shows "findSlotLoop dow (Some e) True sls = None"
  using assms(1)
proof (induction sls)
  case Nil
  then show ?case by simp
next
  case (Cons a sls)
  have "isValidForFinancialIntelligence dow (start a) \<Longrightarrow>
        lessThanThreeHours (start a) (startTime_h e)"
    using special_times_close [of dow "start a" "startTime_h e"] Cons.prems assms(2-4) by simp
  with Cons show ?case by auto
qed

section \<open>One booking attempt\<close>

lemma scheduleCourseSessions_cases:
  assumes wf: "wfGrid g" and res: "scheduleCourseSessions c d qd g h isFI = (ss, g')"
  shows "(ss = [] \<and> g' = g) \<or>
         (ss \<noteq> [] \<and> (\<exists>sl ds. findSuitableSlot d c g (historyOf h (title c)) isFI = Some sl
              \<and> bookInv g g' ss (startTime_c sl)
              \<and> nextDates (dayOfWeek sl) qd (Some d) (sessions c) = Some ds
              \<and> ss = map (\<lambda>(d, i). newSession c sl d i) (zip ds [1..<Suc (sessions c)])))"
proof (cases "findSuitableSlot d c g (historyOf h (title c)) isFI")
  case None
  with res show ?thesis by (simp add: scheduleCourseSessions_def Let_def)
next
  case (Some sl)
  with res have b: "bookLoop c sl qd 1 (Some d) g [] = (ss, g')"
    by (simp add: scheduleCourseSessions_def Let_def)
  from bookLoop_grid [OF bookInv_init [OF wf] b]
  have g: "(ss = [] \<and> g' = g) \<or> bookInv g g' ss (startTime_c sl)" .
  from bookLoop_shape [OF b]
  have s: "ss = [] \<or> (\<exists>ds. nextDates (dayOfWeek sl) qd (Some d) (sessions c) = Some ds
      \<and> ss = map (\<lambda>(d, i). newSession c sl d i) (zip ds [1..<Suc (sessions c)]))" by simp
  show ?thesis
  proof (cases "ss = []")
    case True
    with g have "g' = g" by (auto simp: bookInv_def)
    with True show ?thesis by simp
  next
    case False
    with g s Some show ?thesis by auto
  qed
qed

lemma instance_shape:
  assumes ds: "ds = map (\<lambda>i. d + 7 * int i) [0..<sessions c]"
  shows "map (\<lambda>(d, i). newSession c sl d i) (zip ds [1..<Suc (sessions c)]) =
         instanceSessions c d (startTime_c sl) (endTime_c sl)"
proof (rule nth_equalityI)
  show "length (map (\<lambda>(d, i). newSession c sl d i) (zip ds [1..<Suc (sessions c)])) =
        length (instanceSessions c d (startTime_c sl) (endTime_c sl))"
    by (simp add: ds instanceSessions_def del: upt_Suc)
next
  fix i
  assume "i < length (map (\<lambda>(d, i). newSession c sl d i) (zip ds [1..<Suc (sessions c)]))"
  then have i: "i < sessions c" by (simp add: ds del: upt_Suc)
  then show "map (\<lambda>(d, i). newSession c sl d i) (zip ds [1..<Suc (sessions c)]) ! i =
        instanceSessions c d (startTime_c sl) (endTime_c sl) ! i"
    by (simp add: ds instanceSessions_def newSession_def del: upt_Suc)
qed

lemma scheduleCourseSessions_instance:
  assumes wf: "wfGrid g" and qd: "qd = weekdaysBetween lo hi" and d: "d \<in> set qd"
    and res: "scheduleCourseSessions c d qd g h isFI = (ss, g')"
  shows "(ss = [] \<and> g' = g) \<or>
         (ss \<noteq> [] \<and> 0 < sessions c
          \<and> (\<exists>sl. findSuitableSlot d c g (historyOf h (title c)) isFI = Some sl
              \<and> bookInv g g' ss (startTime_c sl)
              \<and> ss = instanceSessions c d (startTime_c sl) (endTime_c sl)
              \<and> (\<forall>s \<in> set ss. date s \<in> set qd)))"
proof -
  from scheduleCourseSessions_cases [OF wf res] show ?thesis
  proof
    assume "ss = [] \<and> g' = g"
    then show ?thesis by simp
  next
    assume "ss \<noteq> [] \<and> (\<exists>sl ds. findSuitableSlot d c g (historyOf h (title c)) isFI = Some sl
              \<and> bookInv g g' ss (startTime_c sl)
              \<and> nextDates (dayOfWeek sl) qd (Some d) (sessions c) = Some ds
              \<and> ss = map (\<lambda>(d, i). newSession c sl d i) (zip ds [1..<Suc (sessions c)]))"
    then obtain sl ds where ne: "ss \<noteq> []"
      and f: "findSuitableSlot d c g (historyOf h (title c)) isFI = Some sl"
      and b: "bookInv g g' ss (startTime_c sl)"
      and n: "nextDates (dayOfWeek sl) qd (Some d) (sessions c) = Some ds"
      and s: "ss = map (\<lambda>(d, i). newSession c sl d i) (zip ds [1..<Suc (sessions c)])"
      by blast
    have dow: "dayOfWeek sl = DAY_NAMES ! getDay d" using findSuitableSlot_Some(1) [OF f] .
    have lo: "lo \<le> d" using d unfolding qd weekdaysBetween_def by simp
    have "ds = map (\<lambda>i. d + 7 * int i) [0..<sessions c]"
      using qd lo _ n by (rule nextDates_exact) (simp add: dow indexOf_getDay)
    then have "ss = instanceSessions c d (startTime_c sl) (endTime_c sl)"
      unfolding s by (rule instance_shape)
    moreover from this ne have "0 < sessions c" by (auto simp: instanceSessions_def)
    moreover have "\<forall>s \<in> set ss. date s \<in> set qd"
    proof
      fix x assume "x \<in> set ss"
      then obtain e i where "(e, i) \<in> set (zip ds [1..<Suc (sessions c)])"
        "x = newSession c sl e i" unfolding s by auto
      then have "e \<in> set ds" "date x = e" by (auto dest: set_zip_leftD simp: newSession_sel)
      with nextDates_props [OF n] show "date x \<in> set qd" by simp
    qed
    ultimately show ?thesis using ne f b by blast
  qed
qed

section \<open>One step of the engine\<close>

lemma consistent_extend:
  assumes c: "consistent g ss" and b: "bookInv g g' sched st"
  shows "consistent g' (ss @ sched)"
proof -
  from b have wf: "wfGrid g'" and d: "distinct (map sessionKey sched)"
    and o: "occupiedKeys g' = occupiedKeys g \<union> set (map sessionKey sched)"
    and dj: "set (map sessionKey sched) \<inter> occupiedKeys g = {}"
    and f: "freeCount g' + length sched = freeCount g"
    and t: "totalCount g' = totalCount g"
    by (simp_all add: bookInv_def)
  from c have d0: "distinct (map sessionKey ss)"
    and o0: "occupiedKeys g = set (map sessionKey ss)"
    and f0: "freeCount g + length ss = totalCount g"
    by (simp_all add: consistent_def)
  have "distinct (map sessionKey (ss @ sched))" using d d0 dj o0 by auto
  moreover have "occupiedKeys g' = set (map sessionKey (ss @ sched))" using o o0 by auto
  moreover have "freeCount g' + length (ss @ sched) = totalCount g'" using f f0 t by simp
  ultimately show ?thesis using wf by (simp add: consistent_def)
qed

lemma instanceSessions_sel:
  assumes "s \<in> set (instanceSessions c d st et)"
  shows "courseName s = title c" "startTime s = st" "endTime s = et"
    "\<exists>i < sessions c. date s = d + 7 * int i \<and> sessionNumber s = i + 1"
  using assms by (auto simp: instanceSessions_def)

lemma instanceSessions_hd:
  "0 < sessions c \<Longrightarrow> startTime (instanceSessions c d st et ! 0) = st"
  by (simp add: instanceSessions_def del: upt_Suc)

lemma instanceStarts_append:
  "instanceStarts t (xs @ ys) = instanceStarts t xs @ instanceStarts t ys"
  by (simp add: instanceStarts_def)

lemma filter_upt_zero: "filter (\<lambda>i. i = 0) [0..<n] = (if 0 < n then [0] else [])"
proof (cases n)
  case 0
  then show ?thesis by simp
next
  case (Suc m)
  have "[0..<Suc m] = 0 # [1..<Suc m]" by (simp add: upt_conv_Cons)
  moreover have "filter (\<lambda>i. i = 0) [1..<Suc m] = []" by (auto simp: filter_empty_conv)
  ultimately show ?thesis using Suc by (simp del: upt_Suc)
qed

lemma instanceStarts_instance:
  "instanceStarts t (instanceSessions c d st et) =
     (if t = title c \<and> 0 < sessions c then [(d, st)] else [])"
proof (cases "t = title c")
  case False
  then show ?thesis
    by (simp add: instanceStarts_def instanceSessions_def filter_map comp_def filter_empty_conv)
next
  case True
  have "filter (\<lambda>s. courseName s = t \<and> sessionNumber s = 1) (instanceSessions c d st et) =
        map (\<lambda>i. \<lparr>date = d + 7 * int i, courseName = title c, sessionNumber = i + 1,
               startTime = st, endTime = et,
               instructorFirstName = [], instructorLastName = []\<rparr>)
          (filter (\<lambda>i. i = 0) [0..<sessions c])"
    using True by (simp add: instanceSessions_def filter_map comp_def)
  then show ?thesis using True
    by (simp add: instanceStarts_def filter_upt_zero)
qed

lemma separated_snoc:
  "separated (H @ [e]) =
     (separated H \<and> (H \<noteq> [] \<longrightarrow> dayOfWeek_h e \<noteq> dayOfWeek_h (last H)
                       \<and> hoursApart (startTime_h e) (startTime_h (last H))))"
  by (induction H rule: separated.induct) auto

lemma historyOf_upd:
  "historyOf (h(k \<mapsto> v)) t = (if t = k then v else historyOf h t)"
  by (simp add: historyOf_def)

lemma grid_slot_minute:
  assumes wf: "wfGrid g" and dd: "map_of g k = Some dd" and gs: "gs \<in> set (slots dd)"
  shows "minute (start gs) = 0"
proof -
  from wfDay_slots [OF wfGrid_entry [OF wf dd]] obtain sls where
    s: "getAvailableTimeSlots (date_d dd) = Some (Inr sls)"
    "skeleton dd = map (\<lambda>sl. (start sl, end_t sl)) sls" by blast
  have "(start gs, end_t gs) \<in> set (skeleton dd)" using gs by (auto simp: skeleton_def)
  then obtain sl where "sl \<in> set sls" "start sl = start gs" unfolding s(2) by auto
  with getAvailableTimeSlots_minute [OF s(1)] show ?thesis by metis
qed

lemma special_blocked:
  assumes wf: "wfGrid g" and H: "H \<noteq> []" and e: "specialEntry (last H)"
  shows "findSuitableSlot d c g H True = None"
proof (cases "map_of g (format d)")
  case None
  then show ?thesis by (simp add: findSuitableSlot_def)
next
  case (Some dd)
  have "\<forall>gs \<in> set (slots dd). minute (start gs) = 0"
    using grid_slot_minute [OF wf Some] by blast
  then have "findSlotLoop (DAY_NAMES ! getDay d) (Some (last H)) True (slots dd) = None"
    using e by (intro findSlotLoop_special_None) (simp_all add: specialEntry_def)
  with Some H show ?thesis by (simp add: findSuitableSlot_def Let_def)
qed

lemma historyOkD:
  assumes "historyOk h ss"
  shows "instanceStarts t ss = map entryStart (historyOf h t)"
    and "\<forall>e \<in> set (historyOf h t). dayOfWeek_h e = DAY_NAMES ! getDay (startDate e)"
    and "isFinancialIntelligenceTitle t \<Longrightarrow> length (historyOf h t) \<le> 1"
    and "isFinancialIntelligenceTitle t \<Longrightarrow> \<forall>e \<in> set (historyOf h t). specialEntry e"
    and "\<not> isFinancialIntelligenceTitle t \<Longrightarrow> separated (historyOf h t)"
proof -
  from assms have a: "instanceStarts t ss = map entryStart (historyOf h t)
          \<and> (\<forall>e \<in> set (historyOf h t). dayOfWeek_h e = DAY_NAMES ! getDay (startDate e))
          \<and> (if isFinancialIntelligenceTitle t
             then length (historyOf h t) \<le> 1 \<and> (\<forall>e \<in> set (historyOf h t). specialEntry e)
             else separated (historyOf h t))"
    unfolding historyOk_def by blast
  show "instanceStarts t ss = map entryStart (historyOf h t)" using a by simp
  show "\<forall>e \<in> set (historyOf h t). dayOfWeek_h e = DAY_NAMES ! getDay (startDate e)"
    using a by simp
  show "isFinancialIntelligenceTitle t \<Longrightarrow> length (historyOf h t) \<le> 1" using a by simp
  show "isFinancialIntelligenceTitle t \<Longrightarrow> \<forall>e \<in> set (historyOf h t). specialEntry e"
    using a by simp
  show "\<not> isFinancialIntelligenceTitle t \<Longrightarrow> separated (historyOf h t)" using a by simp
qed

lemma engine_step:
  assumes qd: "qd = weekdaysBetween lo hi" and d: "d \<in> set qd" and c: "c \<in> set cs"
    and inv: "engineInv cs qd ss g h"
    and res: "scheduleCourseSessions c d qd g h (isFinancialIntelligenceTitle (title c))
                = (sched, g')"
  shows "(sched = [] \<and> g' = g) \<or>
         (sched \<noteq> [] \<and>
          engineInv cs qd (ss @ sched) g'
            (h(title c \<mapsto> historyOf h (title c) @ [historyEntry d sched])))"
proof -
  let ?fi = "isFinancialIntelligenceTitle (title c)"
  let ?H = "historyOf h (title c)"
  let ?e = "historyEntry d sched"
  let ?h = "h(title c \<mapsto> ?H @ [?e])"
  from inv have con: "consistent g ss" and dts: "\<forall>s \<in> set ss. date s \<in> set qd"
    and sp: "\<forall>s \<in> set ss. specialOk s" and ins: "\<forall>s \<in> set ss. inInstance cs ss s"
    and hist: "historyOk h ss" by (simp_all add: engineInv_def)
  have wf: "wfGrid g" using con by (simp add: consistent_def)
  from scheduleCourseSessions_instance [OF wf qd d res] show ?thesis
  proof
    assume "sched = [] \<and> g' = g"
    then show ?thesis by simp
  next
    assume "sched \<noteq> [] \<and> 0 < sessions c
          \<and> (\<exists>sl. findSuitableSlot d c g ?H ?fi = Some sl
              \<and> bookInv g g' sched (startTime_c sl)
              \<and> sched = instanceSessions c d (startTime_c sl) (endTime_c sl)
              \<and> (\<forall>s \<in> set sched. date s \<in> set qd))"
    then obtain sl where ne: "sched \<noteq> []" and pos: "0 < sessions c"
      and f: "findSuitableSlot d c g ?H ?fi = Some sl"
      and b: "bookInv g g' sched (startTime_c sl)"
      and sh: "sched = instanceSessions c d (startTime_c sl) (endTime_c sl)"
      and sd: "\<forall>s \<in> set sched. date s \<in> set qd" by blast
    let ?st = "startTime_c sl"
    note fs = findSuitableSlot_Some [OF f]
    have e_sel: "startDate ?e = d" "dayOfWeek_h ?e = DAY_NAMES ! getDay d" "startTime_h ?e = ?st"
      using instanceSessions_hd [OF pos, of d ?st "endTime_c sl"]
      by (simp_all add: historyEntry_def sh [symmetric])
    \<comment> \<open>the grid\<close>
    have 1: "consistent g' (ss @ sched)" using con b by (rule consistent_extend)
    have 2: "\<forall>s \<in> set (ss @ sched). date s \<in> set qd" using dts sd by auto
    \<comment> \<open>the special course\<close>
    have 3: "\<forall>s \<in> set (ss @ sched). specialOk s"
    proof
      fix s assume "s \<in> set (ss @ sched)"
      then consider "s \<in> set ss" | "s \<in> set sched" by auto
      then show "specialOk s"
      proof cases
        case 1
        with sp show ?thesis by simp
      next
        case 2
        then have s: "s \<in> set (instanceSessions c d ?st (endTime_c sl))" by (simp add: sh [symmetric])
        from instanceSessions_sel [OF s] obtain i where
          i: "courseName s = title c" "startTime s = ?st" "date s = d + 7 * int i" by blast
        have "getDay (date s) = getDay d" unfolding i(3) by (rule getDay_add_7k)
        with fs(3) i show ?thesis by (simp add: specialOk_def)
      qed
    qed
    \<comment> \<open>complete instances\<close>
    have 4: "\<forall>s \<in> set (ss @ sched). inInstance cs (ss @ sched) s"
    proof
      fix s assume "s \<in> set (ss @ sched)"
      then consider "s \<in> set ss" | "s \<in> set sched" by auto
      then show "inInstance cs (ss @ sched) s"
      proof cases
        case 1
        with ins have "inInstance cs ss s" by simp
        then show ?thesis unfolding inInstance_def by fastforce
      next
        case 2
        then have "s \<in> set (instanceSessions c d ?st (endTime_c sl))"
          "set (instanceSessions c d ?st (endTime_c sl)) \<subseteq> set (ss @ sched)"
          by (simp_all add: sh [symmetric])
        with c show ?thesis unfolding inInstance_def by blast
      qed
    qed
    \<comment> \<open>the history\<close>
    note hd = historyOkD [OF hist]
    have Hfacts: "instanceStarts (title c) ss = map entryStart ?H"
      "\<forall>e \<in> set ?H. dayOfWeek_h e = DAY_NAMES ! getDay (startDate e)"
      using hd(1,2) by simp_all
    have 5: "historyOk ?h (ss @ sched)"
      unfolding historyOk_def
    proof (intro allI conjI)
      fix t
      show "instanceStarts t (ss @ sched) = map entryStart (historyOf ?h t)"
      proof (cases "t = title c")
        case True
        then show ?thesis
          using Hfacts(1) pos e_sel
          by (simp add: instanceStarts_append historyOf_upd sh [symmetric] entryStart_def
              instanceStarts_instance [of "title c" c d ?st "endTime_c sl", unfolded sh [symmetric]])
      next
        case False
        moreover have "instanceStarts t ss = map entryStart (historyOf h t)"
          using hd(1) by simp
        moreover have "instanceStarts t sched = []"
          using False instanceStarts_instance [of t c d ?st "endTime_c sl"]
          by (simp add: sh [symmetric])
        ultimately show ?thesis by (simp add: instanceStarts_append historyOf_upd)
      qed
      show "\<forall>e \<in> set (historyOf ?h t). dayOfWeek_h e = DAY_NAMES ! getDay (startDate e)"
      proof (cases "t = title c")
        case True
        then show ?thesis using Hfacts(2) e_sel by (auto simp: historyOf_upd)
      next
        case False
        then show ?thesis using hd(2) by (simp add: historyOf_upd)
      qed
      show "if isFinancialIntelligenceTitle t
            then length (historyOf ?h t) \<le> 1 \<and> (\<forall>e \<in> set (historyOf ?h t). specialEntry e)
            else separated (historyOf ?h t)"
      proof (cases "t = title c")
        case False
        then show ?thesis using hd(3,4,5) [of t] by (simp add: historyOf_upd)
      next
        case True
        show ?thesis
        proof (cases ?fi)
          case fi: True
          have old: "\<forall>e \<in> set ?H. specialEntry e"
            using hd(4) fi by simp
          have empty: "?H = []"
          proof (rule ccontr)
            assume n: "?H \<noteq> []"
            then have "specialEntry (last ?H)" using old by simp
            from special_blocked [OF wf n this, of d c] f fi show False by simp
          qed
          from fs(2) obtain dd gs where dd: "map_of g (format d) = Some dd"
            and gs: "gs \<in> set (slots dd)" "start gs = ?st" by blast
          have m0: "minute ?st = 0" using grid_slot_minute [OF wf dd gs(1)] gs(2) by simp
          have "10 \<le> hour ?st \<and> hour ?st < 13"
            using fs(3) [OF fi]
            by (auto simp: isValidForFinancialIntelligence_def split: if_splits)
          with m0 e_sel have "specialEntry ?e" by (simp add: specialEntry_def)
          with empty True fi show ?thesis by (simp add: historyOf_upd)
        next
          case nfi: False
          have "separated ?H" using hd(5) nfi by simp
          moreover have "?H \<noteq> [] \<longrightarrow> dayOfWeek_h ?e \<noteq> dayOfWeek_h (last ?H)
                \<and> hoursApart (startTime_h ?e) (startTime_h (last ?H))"
            using fs(4,5) nfi e_sel by (simp add: hoursApart_def)
          ultimately have "separated (?H @ [?e])" by (simp add: separated_snoc)
          with True nfi show ?thesis by (simp add: historyOf_upd)
        qed
      qed
    qed
    from 1 2 3 4 5 have "engineInv cs qd (ss @ sched) g' ?h" by (simp add: engineInv_def)
    with ne show ?thesis by simp
  qed
qed

section \<open>The loops of the engine\<close>

lemma tryStartDates_inv:
  assumes qd: "qd = weekdaysBetween lo hi" and c: "c \<in> set cs"
  shows "set ds \<subseteq> set qd \<Longrightarrow> engineInv cs qd (pre @ col) g h \<Longrightarrow>
         tryStartDates c (isFinancialIntelligenceTitle (title c)) qd ds (col, g, h)
           = (col', g', h') \<Longrightarrow>
         engineInv cs qd (pre @ col') g' h'"
proof (induction ds arbitrary: col g h)
  case Nil
  then show ?case by simp
next
  case (Cons d ds)
  obtain sched g1 where r: "scheduleCourseSessions c d qd g h
      (isFinancialIntelligenceTitle (title c)) = (sched, g1)" by fastforce
  have d: "d \<in> set qd" and ds: "set ds \<subseteq> set qd" using Cons.prems(1) by simp_all
  from engine_step [OF qd d c Cons.prems(2) r] show ?case
  proof
    assume a: "sched = [] \<and> g1 = g"
    with Cons.prems(3) r have
      "tryStartDates c (isFinancialIntelligenceTitle (title c)) qd ds (col, g, h) = (col', g', h')"
      by simp
    from Cons.IH [OF ds Cons.prems(2) this] show ?thesis .
  next
    assume a: "sched \<noteq> [] \<and> engineInv cs qd ((pre @ col) @ sched) g1
        (h(title c \<mapsto> historyOf h (title c) @ [historyEntry d sched]))"
    then have i: "engineInv cs qd (pre @ (col @ sched)) g1
        (h(title c \<mapsto> historyOf h (title c) @ [historyEntry d sched]))" by simp
    from a Cons.prems(3) r have
      "tryStartDates c (isFinancialIntelligenceTitle (title c)) qd ds
         (col @ sched, g1, h(title c \<mapsto> historyOf h (title c) @ [historyEntry d sched]))
       = (col', g', h')" by simp
    from Cons.IH [OF ds i this] show ?thesis .
  qed
qed

lemma cadencePeriods_inv:
  assumes qd: "qd = weekdaysBetween lo hi" and c: "c \<in> set cs"
  shows "engineInv cs qd (pre @ col) g h \<Longrightarrow>
         cadencePeriods c (isFinancialIntelligenceTitle (title c)) qd cds (col, g, h)
           = (col', g', h') \<Longrightarrow>
         engineInv cs qd (pre @ col') g' h'"
proof (induction cds arbitrary: col g h)
  case Nil
  then show ?case by simp
next
  case (Cons cd cds)
  obtain col1 g1 h1 where t: "tryStartDates c (isFinancialIntelligenceTitle (title c)) qd
      (filter (\<lambda>d. cd \<le> d) qd) (col, g, h) = (col1, g1, h1)"
    using prod_cases3 by blast
  have "set (filter (\<lambda>d. cd \<le> d) qd) \<subseteq> set qd" by auto
  from tryStartDates_inv [OF qd c this Cons.prems(1) t]
  have i: "engineInv cs qd (pre @ col1) g1 h1" .
  from Cons.prems(2) t have
    "cadencePeriods c (isFinancialIntelligenceTitle (title c)) qd cds (col1, g1, h1)
       = (col', g', h')" by simp
  from Cons.IH [OF i this] show ?case .
qed

lemma scheduleCourse_inv:
  assumes qd: "qd = weekdaysBetween lo hi" and c: "c \<in> set cs"
    and inv: "engineInv cs qd pre g h"
    and res: "scheduleCourse c fys qd g h = Some (col, g', h')"
  shows "engineInv cs qd (pre @ col) g' h'"
proof -
  from res obtain cds where
    "cadencePeriods c (isFinancialIntelligenceTitle (title c)) qd cds ([], g, h) = (col, g', h')"
    by (auto simp: scheduleCourse_def Let_def split: option.splits)
  moreover have "engineInv cs qd (pre @ []) g h" using inv by simp
  ultimately show ?thesis using cadencePeriods_inv [OF qd c] by blast
qed

lemma scheduleCourses_inv:
  assumes qd: "qd = weekdaysBetween lo hi"
  shows "set rest \<subseteq> set cs \<Longrightarrow> engineInv cs qd ss g h \<Longrightarrow>
         scheduleCourses rest fys qd (ss, g, h) = Some (ss', g', h') \<Longrightarrow>
         engineInv cs qd ss' g' h'"
proof (induction rest arbitrary: ss g h)
  case Nil
  then show ?case by simp
next
  case (Cons c rest)
  from Cons.prems(3) obtain col g1 h1 where
    s: "scheduleCourse c fys qd g h = Some (col, g1, h1)"
    and r: "scheduleCourses rest fys qd (ss @ col, g1, h1) = Some (ss', g', h')"
    by (auto split: option.splits)
  have c: "c \<in> set cs" and rest: "set rest \<subseteq> set cs" using Cons.prems(1) by simp_all
  from scheduleCourse_inv [OF qd c Cons.prems(2) s]
  have "engineInv cs qd (ss @ col) g1 h1" .
  from Cons.IH [OF rest this r] show ?case .
qed

section \<open>The initial grid\<close>

lemma set_AList_update:
  "e \<in> set (AList.update k v al) \<Longrightarrow> e = (k, v) \<or> e \<in> set al"
  by (induction al) (auto split: if_splits)

lemma initGridLoop_fresh:
  "freshGrid g \<Longrightarrow> initGridLoop ds g = Some (Inr g') \<Longrightarrow> freshGrid g'"
proof (induction ds arbitrary: g)
  case Nil
  then show ?case by simp
next
  case (Cons d ds)
  from Cons.prems(2) obtain sls where s: "getAvailableTimeSlots d = Some (Inr sls)"
    and r: "initGridLoop ds (AList.update (format d)
               \<lparr>date_d = d, slots = map freshSlot sls\<rparr> g) = Some (Inr g')"
    by (auto split: option.splits sum.splits)
  let ?dd = "\<lparr>date_d = d, slots = map freshSlot sls\<rparr>"
  have wd: "wfDay (format d, ?dd)"
    using s by (simp add: wfDay_iff skeleton_def freshSlot_def comp_def list_all_iff)
  have av: "\<forall>sl \<in> set (slots ?dd). available sl" by (simp add: freshSlot_def)
  have "freshGrid (AList.update (format d) ?dd g)"
    unfolding freshGrid_def wfGrid_def
  proof (intro conjI)
    show "distinct (map fst (AList.update (format d) ?dd g))"
      using Cons.prems(1) by (simp add: freshGrid_def wfGrid_def distinct_update)
    show "list_all wfDay (AList.update (format d) ?dd g)"
      using Cons.prems(1) wd
      by (auto simp: freshGrid_def wfGrid_def list_all_iff dest!: set_AList_update)
    show "\<forall>(k, dd) \<in> set (AList.update (format d) ?dd g). \<forall>sl \<in> set (slots dd). available sl"
      using Cons.prems(1) av
      by (auto simp: freshGrid_def dest!: set_AList_update)
  qed
  from Cons.IH [OF this r] show ?case .
qed

lemma freshGrid_consistent:
  assumes "freshGrid g"
  shows "consistent g []"
proof -
  have wf: "wfGrid g" and av: "\<forall>(k, dd) \<in> set g. \<forall>sl \<in> set (slots dd). available sl"
    using assms by (simp_all add: freshGrid_def)
  have "occupiedKeys g = {}" using av by (auto simp: occupiedKeys_def)
  moreover have "freeCount g = totalCount g"
  proof -
    have "map (\<lambda>(k, dd). dayAvailable dd) g = map (\<lambda>(k, dd). length (slots dd)) g"
    proof (rule map_cong [OF refl])
      fix e assume "e \<in> set g"
      with av show "(\<lambda>(k, dd). dayAvailable dd) e = (\<lambda>(k, dd). length (slots dd)) e"
        by (cases e) (auto simp: dayAvailable_def)
    qed
    then show ?thesis by (simp only: freeCount_def totalCount_def)
  qed
  ultimately show ?thesis using wf by (simp add: consistent_def)
qed

lemma initial_inv:
  assumes "initializeAvailabilityGrid qd = Some (Inr g0)"
  shows "engineInv cs qd [] g0 Map.empty"
proof -
  have "freshGrid []" by (simp add: freshGrid_def wfGrid_def)
  from initGridLoop_fresh [OF this assms [unfolded initializeAvailabilityGrid_def]]
  have "consistent g0 []" by (rule freshGrid_consistent)
  moreover have "historyOk Map.empty []"
    by (simp add: historyOk_def historyOf_def instanceStarts_def)
  ultimately show ?thesis by (simp add: engineInv_def)
qed

section \<open>The final sort\<close>

lemma mset_insertSession: "mset (insertSession x ys) = add_mset x (mset ys)"
  by (induction ys) simp_all

lemma mset_sortSessions: "mset (sortSessions xs) = mset xs"
proof -
  have "mset (foldl (\<lambda>acc x. insertSession x acc) acc xs) = mset acc + mset xs" for acc
    by (induction xs arbitrary: acc) (simp_all add: mset_insertSession)
  then show ?thesis by (simp add: sortSessions_def)
qed

lemma set_sortSessions: "set (sortSessions xs) = set xs"
  using mset_sortSessions [of xs] by (metis set_mset_mset)

section \<open>The state at the end of a run\<close>

lemma runEngine_inv:
  assumes "runEngine cs quarter year = Some (Inr (ss, g, h))"
  shows "\<exists>qd lo hi ss0. getWeekdaysInQuarter quarter year = Inr qd
           \<and> qd = weekdaysBetween lo hi
           \<and> engineInv cs qd ss0 g h \<and> ss = sortSessions ss0"
proof -
  from runEngine_result [OF assms] obtain qd g0 ss0 where
    qd: "getWeekdaysInQuarter quarter year = Inr qd"
    and g0: "initializeAvailabilityGrid qd = Some (Inr g0)"
    and sc: "scheduleCourses cs (getFinancialYearStart year) qd ([], g0, Map.empty)
               = Some (ss0, g, h)"
    and ss: "ss = sortSessions ss0" by blast
  from getWeekdaysInQuarter_shape [OF qd] obtain lo hi where w: "qd = weekdaysBetween lo hi"
    by blast
  from scheduleCourses_inv [OF w _ initial_inv [OF g0] sc, of cs]
  have "engineInv cs qd ss0 g h" by simp
  with qd w ss show ?thesis by blast
qed

section \<open>The grid and the sessions at the end of a run\<close>

lemma count_distinct_map:
  assumes "distinct (map f xs)"
  shows "length (filter (\<lambda>x. f x = v) xs) = (if v \<in> f ` set xs then 1 else 0)"
proof -
  have "length (filter (\<lambda>x. f x = v) xs) = length (filter (\<lambda>y. y = v) (map f xs))"
    by (simp add: filter_map comp_def)
  also have "\<dots> = card ({y. y = v} \<inter> set (map f xs))"
    using assms by (rule distinct_length_filter)
  also have "\<dots> = (if v \<in> f ` set xs then 1 else 0)"
  proof (cases "v \<in> f ` set xs")
    case True
    then have "{y. y = v} \<inter> set (map f xs) = {v}" by auto
    with True show ?thesis by simp
  next
    case False
    then have "{y. y = v} \<inter> set (map f xs) = {}" by auto
    with False show ?thesis by simp
  qed
  finally show ?thesis .
qed

lemma distinct_dates_times:
  assumes "distinct (map sessionKey xs)"
  shows "distinct (map (\<lambda>s. (date s, startTime s)) xs)"
proof -
  have "map sessionKey xs = map (\<lambda>p. (format (fst p), snd p)) (map (\<lambda>s. (date s, startTime s)) xs)"
    by (simp add: sessionKey_def comp_def)
  with assms show ?thesis by (metis distinct_map)
qed

lemma wfDay_slot_unique:
  assumes "wfDay (k, dd)" "sl \<in> set (slots dd)" "sl' \<in> set (slots dd)" "start sl' = start sl"
  shows "sl' = sl"
proof -
  have "map fst (skeleton dd) = map start (slots dd)" by (simp add: skeleton_def comp_def)
  with wfDay_starts [OF assms(1)] have "distinct (map start (slots dd))" by simp
  then have "inj_on start (set (slots dd))" by (simp add: distinct_map)
  with assms(2-4) show ?thesis by (auto dest: inj_onD)
qed

lemma consistent_slot:
  assumes con: "consistent g xs" and e: "(k, dd) \<in> set g" and sl: "sl \<in> set (slots dd)"
  shows "(\<not> available sl) =
         (length (filter (\<lambda>s. (date s, startTime s) = (date_d dd, start sl)) xs) = 1)"
proof -
  from con have wf: "wfGrid g" and d: "distinct (map sessionKey xs)"
    and o: "occupiedKeys g = set (map sessionKey xs)" by (simp_all add: consistent_def)
  have m: "map_of g k = Some dd" using wfGrid_mem [OF wf] e by simp
  have wd: "wfDay (k, dd)" using wfGrid_entry [OF wf m] .
  have k: "k = format (date_d dd)" using wd by (simp add: wfDay_iff)
  have c: "length (filter (\<lambda>s. (date s, startTime s) = (date_d dd, start sl)) xs) =
           (if (date_d dd, start sl) \<in> (\<lambda>s. (date s, startTime s)) ` set xs then 1 else 0)"
    using distinct_dates_times [OF d] by (rule count_distinct_map)
  have "(\<not> available sl) = occupiedIn dd (start sl)"
  proof
    assume "\<not> available sl"
    with sl show "occupiedIn dd (start sl)" unfolding occupiedIn_def by blast
  next
    assume "occupiedIn dd (start sl)"
    then obtain sl' where a: "sl' \<in> set (slots dd)" "start sl' = start sl" "\<not> available sl'"
      unfolding occupiedIn_def by blast
    from wfDay_slot_unique [OF wd sl a(1,2)] a(3) show "\<not> available sl" by simp
  qed
  also have "\<dots> = ((k, start sl) \<in> occupiedKeys g)"
    using m by (simp add: occupiedKeys_iff [OF wf])
  also have "\<dots> = ((date_d dd, start sl) \<in> (\<lambda>s. (date s, startTime s)) ` set xs)"
  proof
    assume "(k, start sl) \<in> occupiedKeys g"
    then obtain s where s: "s \<in> set xs" "format (date s) = k" "startTime s = start sl"
      unfolding o by (auto simp: sessionKey_def)
    from s(2) k have "date s = date_d dd" by (simp add: format_inj)
    with s show "(date_d dd, start sl) \<in> (\<lambda>s. (date s, startTime s)) ` set xs" by force
  next
    assume "(date_d dd, start sl) \<in> (\<lambda>s. (date s, startTime s)) ` set xs"
    then obtain s where "s \<in> set xs" "date s = date_d dd" "startTime s = start sl" by auto
    then have "(k, start sl) \<in> set (map sessionKey xs)" unfolding k by (force simp: sessionKey_def)
    then show "(k, start sl) \<in> occupiedKeys g" unfolding o .
  qed
  finally show ?thesis unfolding c by simp
qed

lemma filter_length_mset:
  "mset xs = mset ys \<Longrightarrow> length (filter P xs) = length (filter P ys)"
  by (metis mset_filter size_mset)

text \<open>
  Claim C1. At the end of a run (\<open>runEngine\<close> is \<^verbatim>\<open>generateSchedule\<close> up to its
  \<^verbatim>\<open>return\<close>, with the grid as it is then), a slot of the grid is marked occupied if
  and only if exactly one session of the returned list has the date and the start time
  of the slot, and no two sessions of the list have the same date and start time. The
  run includes every rollback that happened in it.
\<close>

theorem grid_matches_sessions:
  assumes "runEngine courses quarter year = Some (Inr (ss, g, h))"
  shows "(\<forall>(k, dd) \<in> set g. \<forall>sl \<in> set (slots dd).
            (\<not> available sl) =
            (length (filter (\<lambda>s. (date s, startTime s) = (date_d dd, start sl)) ss) = 1))
         \<and> distinct (map (\<lambda>s. (date s, startTime s)) ss)"
proof -
  from runEngine_inv [OF assms] obtain qd ss0 where
    inv: "engineInv courses qd ss0 g h" and ss: "ss = sortSessions ss0" by blast
  have con: "consistent g ss0" using inv by (simp add: engineInv_def)
  have m: "mset ss = mset ss0" unfolding ss by (rule mset_sortSessions)
  have "distinct (map (\<lambda>s. (date s, startTime s)) ss0)"
    using con by (intro distinct_dates_times) (simp add: consistent_def)
  moreover have "mset (map (\<lambda>s. (date s, startTime s)) ss) =
                 mset (map (\<lambda>s. (date s, startTime s)) ss0)" using m by simp
  ultimately have d: "distinct (map (\<lambda>s. (date s, startTime s)) ss)"
    by (metis mset_eq_imp_distinct_iff)
  have "(\<not> available sl) =
        (length (filter (\<lambda>s. (date s, startTime s) = (date_d dd, start sl)) ss) = 1)"
    if "(k, dd) \<in> set g" "sl \<in> set (slots dd)" for k dd sl
    using consistent_slot [OF con that] filter_length_mset [OF m] by simp
  with d show ?thesis by blast
qed

section \<open>Atomic booking\<close>












section \<open>An example run\<close>

lemma exampleRun_sessions:
  "map_option (map_sum id fst) (runEngine [exampleFI] ''Q1'' 2025) = Some (Inr exampleSessions)"
  by code_simp

lemma exampleRun:
  "\<exists>g h. runEngine [exampleFI] ''Q1'' 2025 = Some (Inr (exampleSessions, g, h))"
proof -
  have "\<exists>ss g h. runEngine [exampleFI] ''Q1'' 2025 = Some (Inr (ss, g, h))"
    by (rule runEngine_completes) (simp_all add: yearInRange_def exampleFI_def)
  then obtain ss g h where r: "runEngine [exampleFI] ''Q1'' 2025 = Some (Inr (ss, g, h))"
    by blast
  with exampleRun_sessions have "ss = exampleSessions" by simp
  with r show ?thesis by blast
qed

theorem grid_matches_sessions_witness:
  "\<exists>g h. runEngine [exampleFI] ''Q1'' 2025 = Some (Inr (exampleSessions, g, h))
     \<and> (\<forall>(k, dd) \<in> set g. \<forall>sl \<in> set (slots dd).
            (\<not> available sl) =
            (length (filter (\<lambda>s. (date s, startTime s) = (date_d dd, start sl))
                       exampleSessions) = 1))
     \<and> distinct (map (\<lambda>s. (date s, startTime s)) exampleSessions)"
proof -
  from exampleRun obtain g h where
    r: "runEngine [exampleFI] ''Q1'' 2025 = Some (Inr (exampleSessions, g, h))" by blast
  from grid_matches_sessions [OF r] r show ?thesis by blast
qed

end
